theory Spec2Isabelle
  imports Complex_Main "HOL-Library.Sublist"
begin

section \<open>JavaScript string primitives\<close>

text \<open>
  A JavaScript string is a sequence of UTF-16 code units. The model uses \<open>string\<close>
  (a list of 8-bit \<open>char\<close>), read as the code units U+0000 to U+00FF (Latin-1), so
  \<open>length\<close> is the \<open>.length\<close> of the source. Code units above U+00FF are outside
  the model. JavaScript numbers that hold counts and offsets are \<open>nat\<close> or \<open>int\<close>.
  Clock readings (\<open>Date.now()\<close>, \<open>new Date().toISOString()\<close>) are left out of
  identifiers and records.
\<close>

definition is_space :: "char \<Rightarrow> bool" where
  \<comment> \<open>the regular expression class \<open>\s\<close>, and the characters \<open>trim()\<close> removes:
      TAB, LF, VT, FF, CR, SPACE, NBSP\<close>
  "is_space c = (let n = (of_char c :: nat) in
     n = 9 \<or> n = 10 \<or> n = 11 \<or> n = 12 \<or> n = 13 \<or> n = 32 \<or> n = 160)"

definition toLowerCaseChar :: "char \<Rightarrow> char" where
  \<comment> \<open>A-Z and the Latin-1 capitals U+00C0..U+00DE (without the sign U+00D7)\<close>
  "toLowerCaseChar c = (let n = (of_char c :: nat) in
     if (65 \<le> n \<and> n \<le> 90) \<or> (192 \<le> n \<and> n \<le> 222 \<and> n \<noteq> 215)
     then char_of (n + 32) else c)"

definition toLowerCase :: "string \<Rightarrow> string" where
  "toLowerCase s = map toLowerCaseChar s"

text \<open>
  \<open>s.split(/[...]+/)\<close>: the text is cut at every maximal run of separator characters.
  A separator run at the start or the end leaves an empty first or last piece, and the
  empty text gives one empty piece.
\<close>

function split_aux :: "(char \<Rightarrow> bool) \<Rightarrow> string \<Rightarrow> string \<Rightarrow> string list" where
  "split_aux sep cur [] = [rev cur]"
| "split_aux sep cur (c # cs) =
     (if sep c then rev cur # split_aux sep [] (dropWhile sep cs)
      else split_aux sep (c # cur) cs)"
  by pat_completeness auto
termination
  by (relation "measure (\<lambda>(sep, cur, cs). length cs)")
     (auto simp: length_dropWhile_le less_Suc_eq_le)

definition split_on :: "(char \<Rightarrow> bool) \<Rightarrow> string \<Rightarrow> string list" where
  "split_on sep s = split_aux sep [] s"

definition split_ws :: "string \<Rightarrow> string list" where
  \<comment> \<open>\<open>s.split(/\s+/)\<close>\<close>
  "split_ws s = split_on is_space s"

definition trim :: "string \<Rightarrow> string" where
  "trim s = rev (dropWhile is_space (rev (dropWhile is_space s)))"

definition endsWith :: "string \<Rightarrow> string \<Rightarrow> bool" where
  "endsWith s t = (length t \<le> length s \<and> drop (length s - length t) s = t)"

text \<open>
  \<open>s.indexOf(w, pos)\<close>: the position is clamped to \<open>[0, s.length]\<close>; the result is the
  first index from there on at which \<open>w\<close> occurs, or \<open>-1\<close>.
\<close>

fun index_scan :: "string \<Rightarrow> string \<Rightarrow> nat \<Rightarrow> int" where
  "index_scan w [] k = (if w = [] then int k else -1)"
| "index_scan w (c # cs) k = (if prefix w (c # cs) then int k else index_scan w cs (k + 1))"

definition indexOf :: "string \<Rightarrow> string \<Rightarrow> int \<Rightarrow> int" where
  "indexOf s w pos = (let p = nat (max 0 (min pos (int (length s)))) in index_scan w (drop p s) p)"

definition includes_str :: "string \<Rightarrow> string \<Rightarrow> bool" where
  "includes_str s w = (0 \<le> indexOf s w 0)"

definition substring :: "string \<Rightarrow> int \<Rightarrow> int \<Rightarrow> string" where
  \<comment> \<open>both ends are clamped to \<open>[0, s.length]\<close> and swapped when out of order\<close>
  "substring s a b =
     (let n = int (length s);
          a' = max 0 (min a n);
          b' = max 0 (min b n);
          lo = min a' b';
          hi = max a' b'
      in take (nat (hi - lo)) (drop (nat lo) s))"

definition substring_from :: "string \<Rightarrow> int \<Rightarrow> string" where
  \<comment> \<open>\<open>s.substring(a)\<close>\<close>
  "substring_from s a = substring s a (int (length s))"

definition replace_str :: "string \<Rightarrow> string \<Rightarrow> (string \<Rightarrow> string) \<Rightarrow> string" where
  \<comment> \<open>\<open>s.replace(pat, r)\<close> with a string pattern: the first occurrence only, case-sensitive;
      \<open>r\<close> maps the matched text to its replacement\<close>
  "replace_str s pat r =
     (let i = indexOf s pat 0
      in if i < 0 then s else take (nat i) s @ r pat @ drop (nat i + length pat) s)"

section \<open>Text metrics and readability (analyze-readability)\<close>

definition is_az :: "char \<Rightarrow> bool" where
  "is_az c = (let n = (of_char c :: nat) in 97 \<le> n \<and> n \<le> 122)"

definition isVowel :: "char \<Rightarrow> bool" where
  "isVowel c = (c \<in> set ''aeiouy'')"

fun vowel_groups :: "nat \<Rightarrow> bool \<Rightarrow> string \<Rightarrow> nat" where
  "vowel_groups syllableCount previousWasVowel [] = syllableCount"
| "vowel_groups syllableCount previousWasVowel (c # cs) =
     vowel_groups (if isVowel c \<and> \<not> previousWasVowel then syllableCount + 1 else syllableCount)
       (isVowel c) cs"

definition syllable_step :: "nat \<Rightarrow> string \<Rightarrow> nat" where
  \<comment> \<open>the reducer of \<open>countSyllables\<close>\<close>
  "syllable_step tot word =
     (let cleanWord = filter is_az word
      in if length cleanWord = 0 then tot
         else
           let syllableCount = vowel_groups 0 False cleanWord;
               syllableCount' =
                 (if endsWith cleanWord ''e'' \<and> syllableCount > 1 then syllableCount - 1
                  else syllableCount)
           in tot + max 1 syllableCount')"

definition countSyllables :: "string \<Rightarrow> nat" where
  "countSyllables text =
     (let words = filter (\<lambda>w. length w > 0) (split_ws (toLowerCase text))
      in foldl syllable_step 0 words)"

definition is_sentence_end :: "char \<Rightarrow> bool" where
  "is_sentence_end c = (c = CHR ''.'' \<or> c = CHR ''!'' \<or> c = CHR ''?'')"

definition text_sentences :: "string \<Rightarrow> string list" where
  "text_sentences text = filter (\<lambda>s. length (trim s) > 0) (split_on is_sentence_end text)"

definition text_words :: "string \<Rightarrow> string list" where
  "text_words text = filter (\<lambda>w. length w > 0) (split_ws text)"

text \<open>
  The scores are IEEE doubles in the source. The model computes in \<open>real\<close> and rounds the
  result of every arithmetic operation and every decimal literal with a parameter
  \<open>fl\<close>; exact arithmetic is \<open>fl = (\<lambda>x. x)\<close>. \<open>Math.round\<close>, \<open>Math.max\<close> and
  \<open>Math.min\<close> are exact on doubles.
\<close>

definition Math_round :: "real \<Rightarrow> real" where
  "Math_round x = of_int \<lfloor>x + 1 / 2\<rfloor>"

datatype score_type = flesch_reading_ease | flesch_kincaid_grade | automated_readability

record ReadabilityScore =
  rs_document_id :: string
  score_type :: score_type
  score_value :: real
  analysis_text_length :: nat

datatype js_exception = Error string

definition calculateReadabilityScores ::
  "(real \<Rightarrow> real) \<Rightarrow> string \<Rightarrow> string \<Rightarrow> js_exception + ReadabilityScore list" where
  "calculateReadabilityScores fl text documentId =
     (let sentenceCount = length (text_sentences text);
          wordCount = length (text_words text);
          syllableCount = countSyllables text
      in if sentenceCount = 0 \<or> wordCount = 0
         then Inl (Error ''Invalid text structure for readability analysis'')
         else
           let avgSentenceLength = fl (real wordCount / real sentenceCount);
               avgSyllablesPerWord = fl (real syllableCount / real wordCount);
               fleschReadingEase =
                 fl (fl (fl 206.835 - fl (fl 1.015 * avgSentenceLength))
                     - fl (fl 84.6 * avgSyllablesPerWord));
               fleschKincaidGrade =
                 fl (fl (fl (fl 0.39 * avgSentenceLength) + fl (fl 11.8 * avgSyllablesPerWord))
                     - fl 15.59);
               charactersPerWord =
                 fl (real (length (filter (\<lambda>c. \<not> is_space c) text)) / real wordCount);
               automatedReadability =
                 fl (fl (fl (fl 4.71 * charactersPerWord) + fl (fl 0.5 * avgSentenceLength))
                     - fl 21.43)
           in Inr
             [\<lparr>rs_document_id = documentId, score_type = flesch_reading_ease,
               score_value = fl (Math_round (fl (max 0 (min 100 fleschReadingEase) * 10)) / 10),
               analysis_text_length = length text\<rparr>,
              \<lparr>rs_document_id = documentId, score_type = flesch_kincaid_grade,
               score_value = fl (Math_round (fl (max 0 fleschKincaidGrade * 10)) / 10),
               analysis_text_length = length text\<rparr>,
              \<lparr>rs_document_id = documentId, score_type = automated_readability,
               score_value = fl (Math_round (fl (max 0 automatedReadability * 10)) / 10),
               analysis_text_length = length text\<rparr>])"

section \<open>Tone (analyze-tone)\<close>

text \<open>
  \<open>analyzeTone\<close> computes five integer scores from the text and then picks the tone
  from the scores alone. The model starts from the scores.
\<close>

datatype tone = formal | casual | confident | friendly | professional

record tone_scores =
  formalScore :: int
  casualScore :: int
  confidentScore :: int
  friendlyScore :: int
  professionalScore :: int

definition score_entries :: "tone_scores \<Rightarrow> (tone \<times> int) list" where
  \<comment> \<open>\<open>Object.entries(scores)\<close>: the keys in the order the object literal lists them\<close>
  "score_entries s =
     [(formal, formalScore s), (casual, casualScore s), (confident, confidentScore s),
      (friendly, friendlyScore s), (professional, professionalScore s)]"

definition maxScore :: "tone_scores \<Rightarrow> int" where
  \<comment> \<open>\<open>Math.max(...Object.values(scores))\<close>\<close>
  "maxScore s = (let vs = map snd (score_entries s) in foldl max (hd vs) (tl vs))"

definition dominantTone :: "tone_scores \<Rightarrow> tone option" where
  "dominantTone s = map_option fst (find (\<lambda>(t, score). score = maxScore s) (score_entries s))"

definition tone_detected :: "tone_scores \<Rightarrow> tone" where
  \<comment> \<open>\<open>dominantTone || 'professional'\<close>\<close>
  "tone_detected s = (case dominantTone s of None \<Rightarrow> professional | Some t \<Rightarrow> t)"

definition score_of :: "tone_scores \<Rightarrow> tone \<Rightarrow> int" where
  "score_of s t = (case t of formal \<Rightarrow> formalScore s | casual \<Rightarrow> casualScore s
     | confident \<Rightarrow> confidentScore s | friendly \<Rightarrow> friendlyScore s
     | professional \<Rightarrow> professionalScore s)"

definition tone_index :: "tone \<Rightarrow> nat" where
  "tone_index t = (case t of formal \<Rightarrow> 0 | casual \<Rightarrow> 1 | confident \<Rightarrow> 2 | friendly \<Rightarrow> 3
     | professional \<Rightarrow> 4)"

section \<open>Suggestions (analyze-grammar)\<close>

datatype issue_type = grammar | spelling | style | clarity

datatype suggestion_id =
    LtId nat int            \<comment> \<open>\<open>lt-${index}-${match.offset}\<close>\<close>
  | BasicSpellId nat int    \<comment> \<open>\<open>basic-spell-${wordIndex}-${wordStart}\<close>\<close>
  | SpellId int             \<comment> \<open>\<open>spell-${wordStart}-${Date.now()}\<close>\<close>

record SuggestionResponse =
  sugg_id :: suggestion_id
  document_id :: string
  start_index :: int
  end_index :: int
  issue_type :: issue_type
  original_text :: string
  suggested_text :: string
  explanation :: string
  accepted :: bool

text \<open>
  \<open>commonMisspellings[cleanWord]\<close> is a property read on an object literal, so besides
  the thirteen entries it finds what the object inherits from \<open>Object.prototype\<close>. Among
  the inherited names only \<open>constructor\<close> and \<open>__proto__\<close> are lower-case; both values
  are truthy.
\<close>

datatype property_value = Str string | ObjectConstructor | ObjectPrototype

definition misspelling_table :: "(string \<times> string) list" where
  "misspelling_table =
     [(''teh'', ''the''), (''adn'', ''and''), (''recieve'', ''receive''),
      (''seperate'', ''separate''), (''occured'', ''occurred''),
      (''definately'', ''definitely''), (''neccessary'', ''necessary''),
      (''begining'', ''beginning''), (''accomodate'', ''accommodate''),
      (''enviroment'', ''environment''), (''tommorow'', ''tomorrow''),
      (''wierd'', ''weird''), (''freind'', ''friend'')]"

definition commonMisspellings :: "string \<Rightarrow> property_value option" where
  "commonMisspellings key =
     (case map_of misspelling_table key of
        Some v \<Rightarrow> Some (Str v)
      | None \<Rightarrow>
          if key = ''constructor'' then Some ObjectConstructor
          else if key = ''__proto__'' then Some ObjectPrototype
          else None)"

definition as_replacement :: "property_value \<Rightarrow> string \<Rightarrow> string" where
  \<comment> \<open>the value as second argument of \<open>replace\<close>: a string is inserted, the function
      \<open>Object\<close> is called on the match and returns it, an object is converted to a string\<close>
  "as_replacement v matched =
     (case v of Str t \<Rightarrow> t | ObjectConstructor \<Rightarrow> matched
      | ObjectPrototype \<Rightarrow> ''[object Object]'')"

definition as_text :: "property_value \<Rightarrow> string" where
  \<comment> \<open>the value inside a template literal\<close>
  "as_text v =
     (case v of Str t \<Rightarrow> t | ObjectConstructor \<Rightarrow> ''function Object() { [native code] }''
      | ObjectPrototype \<Rightarrow> ''[object Object]'')"

definition dquote :: char where
  "dquote = CHR 0x22"

definition is_punct :: "char \<Rightarrow> bool" where
  \<comment> \<open>the class \<open>[.,!?;:"']\<close>\<close>
  "is_punct c = (c \<in> set ''.,!?;:'' \<or> c = CHR 0x22 \<or> c = CHR 0x27)"

definition clean_word :: "string \<Rightarrow> string" where
  \<comment> \<open>\<open>word.toLowerCase().replace(/[.,!?;:"']/g, '')\<close>\<close>
  "clean_word word = filter (\<lambda>c. \<not> is_punct c) (toLowerCase word)"

fun basic_loop ::
  "string \<Rightarrow> string \<Rightarrow> string list \<Rightarrow> nat \<Rightarrow> int \<Rightarrow> SuggestionResponse list" where
  "basic_loop text documentId [] wordIndex currentIndex = []"
| "basic_loop text documentId (word # words) wordIndex currentIndex =
     (let cleanWord = clean_word word;
          found =
            (case commonMisspellings cleanWord of
               None \<Rightarrow> []
             | Some v \<Rightarrow>
                 let wordStart = indexOf text word currentIndex;
                     wordEnd = wordStart + int (length word)
                 in [\<lparr>sugg_id = BasicSpellId wordIndex wordStart,
                      document_id = documentId,
                      start_index = wordStart,
                      end_index = wordEnd,
                      issue_type = spelling,
                      original_text = word,
                      suggested_text = replace_str word cleanWord (as_replacement v),
                      explanation = ''Spelling: '' @ [dquote] @ word @ [dquote]
                        @ '' should be '' @ [dquote] @ as_text v @ [dquote],
                      accepted = False\<rparr>]);
          currentIndex' = indexOf text word currentIndex + int (length word)
      in found @ basic_loop text documentId words (wordIndex + 1) currentIndex')"

definition generateBasicSuggestions :: "string \<Rightarrow> string \<Rightarrow> SuggestionResponse list" where
  "generateBasicSuggestions text documentId = basic_loop text documentId (split_ws text) 0 0"

record LanguageToolMatch =
  message :: string
  offset :: int
  match_length :: int
  replacements :: "string list"
  rule_id :: string
  category_id :: string

definition convert_match :: "string \<Rightarrow> string \<Rightarrow> LanguageToolMatch \<Rightarrow> nat \<Rightarrow> SuggestionResponse" where
  \<comment> \<open>the callback of \<open>data.matches.map\<close>\<close>
  "convert_match text documentId match index =
     (let categoryId = toLowerCase (category_id match);
          ruleId = toLowerCase (rule_id match);
          issueType =
            (if includes_str categoryId ''typo'' \<or> includes_str ruleId ''spell'' then spelling
             else if includes_str categoryId ''style'' \<or> includes_str categoryId ''redundancy''
               then style
             else if includes_str categoryId ''clarity'' \<or> includes_str categoryId ''confused''
               then clarity
             else grammar);
          suggestedText =
            (if length (replacements match) > 0 then hd (replacements match)
             else substring text (offset match) (offset match + match_length match))
      in \<lparr>sugg_id = LtId index (offset match),
          document_id = documentId,
          start_index = offset match,
          end_index = offset match + match_length match,
          issue_type = issueType,
          original_text = substring text (offset match) (offset match + match_length match),
          suggested_text = suggestedText,
          explanation = message match,
          accepted = False\<rparr>)"

definition convert_matches :: "string \<Rightarrow> string \<Rightarrow> LanguageToolMatch list \<Rightarrow> SuggestionResponse list" where
  "convert_matches text documentId matches =
     map (\<lambda>(match, index). convert_match text documentId match index)
       (zip matches [0 ..< length matches])"

fun findIndex :: "('a \<Rightarrow> bool) \<Rightarrow> 'a list \<Rightarrow> int" where
  "findIndex P [] = -1"
| "findIndex P (x # xs) =
     (if P x then 0 else (let r = findIndex P xs in if r < 0 then -1 else r + 1))"

definition uniqueSuggestions :: "SuggestionResponse list \<Rightarrow> SuggestionResponse list" where
  \<comment> \<open>\<open>allSuggestions.filter((suggestion, index, self) => index === self.findIndex(...))\<close>\<close>
  "uniqueSuggestions allSuggestions =
     map fst (filter
       (\<lambda>(suggestion, index).
          int index = findIndex
            (\<lambda>s. start_index s = start_index suggestion \<and> end_index s = end_index suggestion)
            allSuggestions)
       (zip allSuggestions [0 ..< length allSuggestions]))"

text \<open>
  The handler of the Edge Function, as a function of the request and of what the call
  of the remote checker gives. The body of the request is taken as parsed, with \<open>text\<close>
  and \<open>documentId\<close> strings (an absent one is the empty string, which is falsy too). The
  body of the response is the object that \<open>JSON.stringify\<close> receives, as the list of
  its fields.
\<close>

datatype http_method = OPTIONS | POST | OtherMethod

record grammar_request =
  req_method :: http_method
  req_text :: string
  req_documentId :: string

datatype remote_reply =
    RemoteThrows                          \<comment> \<open>\<open>fetch\<close> rejects, or the payload is malformed\<close>
  | RemoteNotOk nat                       \<comment> \<open>a response whose \<open>ok\<close> is false, with its status\<close>
  | RemoteOk "LanguageToolMatch list"     \<comment> \<open>an ok response with its matches\<close>

datatype json_value = JsonString string | JsonSuggestions "SuggestionResponse list"

datatype response_body = TextBody string | JsonBody "(string \<times> json_value) list"

record http_response =
  status :: nat
  body :: response_body

definition serve :: "grammar_request \<Rightarrow> remote_reply \<Rightarrow> http_response" where
  "serve req remote =
     (if req_method req = OPTIONS then \<lparr>status = 200, body = TextBody ''ok''\<rparr>
      else if req_method req \<noteq> POST
        then \<lparr>status = 405, body = JsonBody [(''error'', JsonString ''Method not allowed'')]\<rparr>
      else
        let text = req_text req; documentId = req_documentId req
        in if text = [] \<or> documentId = []
             then \<lparr>status = 400,
                   body = JsonBody [(''error'', JsonString ''Text and documentId are required'')]\<rparr>
           else if length text > 50000
             then \<lparr>status = 400,
                   body = JsonBody [(''error'', JsonString ''Text too long (max 50,000 characters)'')]\<rparr>
           else
             (case remote of
                RemoteThrows \<Rightarrow>
                  \<lparr>status = 500,
                   body = JsonBody [(''error'', JsonString ''Grammar analysis failed'')]\<rparr>
              | RemoteNotOk code \<Rightarrow>
                  let basicSuggestions = generateBasicSuggestions text documentId
                  in \<lparr>status = 200,
                      body = JsonBody [(''suggestions'', JsonSuggestions basicSuggestions)]\<rparr>
              | RemoteOk matches \<Rightarrow>
                  let suggestions = convert_matches text documentId matches;
                      basicSuggestions = generateBasicSuggestions text documentId;
                      allSuggestions = suggestions @ basicSuggestions
                  in \<lparr>status = 200,
                      body = JsonBody
                        [(''suggestions'', JsonSuggestions (uniqueSuggestions allSuggestions))]\<rparr>))"

definition response_suggestions :: "http_response \<Rightarrow> SuggestionResponse list option" where
  "response_suggestions r =
     (case body r of
        JsonBody kvs \<Rightarrow>
          (case map_of kvs ''suggestions'' of
             Some (JsonSuggestions l) \<Rightarrow> Some l
           | _ \<Rightarrow> None)
      | _ \<Rightarrow> None)"

definition response_field :: "http_response \<Rightarrow> string \<Rightarrow> json_value option" where
  "response_field r k = (case body r of JsonBody kvs \<Rightarrow> map_of kvs k | _ \<Rightarrow> None)"

section \<open>The client's suggestion engine (SuggestionEngine, Editor)\<close>

definition is_word_char :: "char \<Rightarrow> bool" where
  \<comment> \<open>the class \<open>\w\<close>\<close>
  "is_word_char c = (let n = (of_char c :: nat) in
     (48 \<le> n \<and> n \<le> 57) \<or> (65 \<le> n \<and> n \<le> 90) \<or> n = 95 \<or> (97 \<le> n \<and> n \<le> 122))"

text \<open>
  The loop \<open>while ((match = wordPattern.exec(s)) !== null)\<close> with the pattern
  \<open>/\b\w+\b/g\<close> visits the maximal runs of word characters from left to right, each
  with the index at which it starts.
\<close>

function word_runs :: "nat \<Rightarrow> string \<Rightarrow> (nat \<times> string) list" where
  "word_runs k [] = []"
| "word_runs k (c # cs) =
     (if is_word_char c
      then (k, c # takeWhile is_word_char cs)
           # word_runs (k + 1 + length (takeWhile is_word_char cs)) (dropWhile is_word_char cs)
      else word_runs (k + 1) cs)"
  by pat_completeness auto
termination
  by (relation "measure (\<lambda>(k, cs). length cs)")
     (auto simp: length_dropWhile_le less_Suc_eq_le)

fun replace_crlf :: "string \<Rightarrow> string" where
  "replace_crlf (a # b # cs) =
     (if a = CHR 0x0D \<and> b = CHR 0x0A then CHR 0x0A # replace_crlf cs
      else a # replace_crlf (b # cs))"
| "replace_crlf cs = cs"

definition normalizeContent :: "string \<Rightarrow> string" where
  \<comment> \<open>\<open>.replace(/\r\n/g, '\n').replace(/\r/g, '\n').normalize('NFC')\<close>; a string of
      Latin-1 code units is its own NFC form\<close>
  "normalizeContent content =
     map (\<lambda>c. if c = CHR 0x0D then CHR 0x0A else c) (replace_crlf content)"

function replace_all_ci :: "string \<Rightarrow> string \<Rightarrow> (string \<Rightarrow> string) \<Rightarrow> string" where
  \<comment> \<open>\<open>s.replace(new RegExp(pat, 'gi'), r)\<close> for a pattern of letters, digits and
      underscores; the source never builds the expression from an empty pattern\<close>
  "replace_all_ci s pat r =
     (if pat = [] \<or> s = [] then s
      else if length pat \<le> length s \<and> toLowerCase (take (length pat) s) = toLowerCase pat
        then r (take (length pat) s) @ replace_all_ci (drop (length pat) s) pat r
      else hd s # replace_all_ci (tl s) pat r)"
  by pat_completeness auto
termination
  by (relation "measure (\<lambda>(s, pat, r). length s)") auto

definition basicSpellCheck :: "string \<Rightarrow> string \<Rightarrow> SuggestionResponse list" where
  "basicSpellCheck content documentId =
     (let normalizedContent = normalizeContent content
      in concat (map
        (\<lambda>(wordStart, word).
           let wordEnd = wordStart + length word;
               cleanWord = clean_word word
           in case commonMisspellings cleanWord of
                None \<Rightarrow> []
              | Some v \<Rightarrow>
                  let correctedWord = replace_all_ci word cleanWord (as_replacement v)
                  in [\<lparr>sugg_id = SpellId (int wordStart),
                       document_id = documentId,
                       start_index = int wordStart,
                       end_index = int wordEnd,
                       issue_type = spelling,
                       original_text = word,
                       suggested_text = correctedWord,
                       explanation = ''Spelling: '' @ [dquote] @ word @ [dquote]
                         @ '' should be '' @ [dquote] @ correctedWord @ [dquote],
                       accepted = False\<rparr>])
        (word_runs 0 normalizedContent)))"

definition handleAcceptSuggestion :: "string \<Rightarrow> SuggestionResponse \<Rightarrow> string" where
  \<comment> \<open>the new content of the document\<close>
  "handleAcceptSuggestion content suggestion =
     substring content 0 (start_index suggestion)
     @ suggested_text suggestion
     @ substring_from content (end_index suggestion)"

text \<open>
  \<open>analyzeTextDebounced\<close> keeps one timer handle in the static field
  \<open>debounceTimeout\<close>. The model is an event system over the state of the class and of
  the timers of the runtime: a call of \<open>analyzeTextDebounced\<close>, a timer that fires, and
  the return of the Edge Function call that a fired timer started. Time is the order of
  the events. Timer handles are positive and handed out in increasing order; an event
  that names a handle which is not armed, or not in flight, changes nothing. The callback
  is identified by a number and its invocations are recorded in \<open>delivered\<close>.
\<close>

record request =
  rq_content :: string
  rq_documentId :: string
  rq_callback :: nat

datatype invoke_result =
    InvokeError                                  \<comment> \<open>\<open>error\<close> is set, or the call throws\<close>
  | InvokeData "SuggestionResponse list option"  \<comment> \<open>\<open>data.suggestions\<close>, which may be absent\<close>

record engine_state =
  debounceTimeout :: "nat option"
  nextHandle :: nat
  timers :: "(nat \<times> request) list"
  running :: "(nat \<times> request) list"
  delivered :: "(nat \<times> request \<times> SuggestionResponse list) list"

datatype event =
    CallAnalyzeTextDebounced request
  | TimerFires nat
  | InvokeReturns nat invoke_result

definition initial_state :: engine_state where
  "initial_state =
     \<lparr>debounceTimeout = None, nextHandle = 1, timers = [], running = [], delivered = []\<rparr>"

definition clearTimeout :: "nat \<Rightarrow> (nat \<times> request) list \<Rightarrow> (nat \<times> request) list" where
  "clearTimeout h ts = filter (\<lambda>(h', r). h' \<noteq> h) ts"

definition analyzeTextDebounced :: "request \<Rightarrow> engine_state \<Rightarrow> engine_state" where
  "analyzeTextDebounced r s =
     (let cleared = (case debounceTimeout s of None \<Rightarrow> timers s
                     | Some h \<Rightarrow> clearTimeout h (timers s));
          h = nextHandle s
      in s\<lparr>debounceTimeout := Some h, nextHandle := h + 1, timers := cleared @ [(h, r)]\<rparr>)"

definition returns_at_once :: "string \<Rightarrow> bool" where
  \<comment> \<open>\<open>!content.trim() || content.length < 5\<close> in \<open>analyzeTextWithEdgeFunction\<close>\<close>
  "returns_at_once c = (trim c = [] \<or> length c < 5)"

definition timer_fires :: "nat \<Rightarrow> engine_state \<Rightarrow> engine_state" where
  "timer_fires h s =
     (case map_of (timers s) h of
        None \<Rightarrow> s
      | Some r \<Rightarrow>
          if returns_at_once (rq_content r)
          then s\<lparr>timers := clearTimeout h (timers s), delivered := delivered s @ [(h, r, [])]\<rparr>
          else s\<lparr>timers := clearTimeout h (timers s), running := running s @ [(h, r)]\<rparr>)"

definition invoke_returns :: "nat \<Rightarrow> invoke_result \<Rightarrow> engine_state \<Rightarrow> engine_state" where
  "invoke_returns h res s =
     (case map_of (running s) h of
        None \<Rightarrow> s
      | Some r \<Rightarrow>
          let suggestions =
                (case res of
                   InvokeError \<Rightarrow> basicSpellCheck (rq_content r) (rq_documentId r)
                 | InvokeData None \<Rightarrow> []
                 | InvokeData (Some l) \<Rightarrow> l)
          in s\<lparr>running := clearTimeout h (running s),
               delivered := delivered s @ [(h, r, suggestions)]\<rparr>)"

fun step :: "engine_state \<Rightarrow> event \<Rightarrow> engine_state" where
  "step s (CallAnalyzeTextDebounced r) = analyzeTextDebounced r s"
| "step s (TimerFires h) = timer_fires h s"
| "step s (InvokeReturns h res) = invoke_returns h res s"

definition run :: "event list \<Rightarrow> engine_state" where
  "run evs = foldl step initial_state evs"

definition pending :: "engine_state \<Rightarrow> nat list" where
  \<comment> \<open>the handles of the requests whose debounce timer is armed\<close>
  "pending s = map fst (timers s)"

definition in_flight :: "engine_state \<Rightarrow> nat list" where
  "in_flight s = map fst (running s)"

definition delivered_handles :: "engine_state \<Rightarrow> nat list" where
  "delivered_handles s = map fst (delivered s)"

section \<open>Retry (useAuthStore)\<close>

text \<open>
  A thrown value is read as \<open>error?.message || error?.toString() || ''\<close>. The model keeps
  the two readings: \<open>None\<close> is \<open>undefined\<close>, and an empty string is falsy as well.
\<close>

datatype js_error = JsError (err_message: "string option") (err_toString: "string option")

definition truthy :: "string option \<Rightarrow> bool" where
  "truthy v = (case v of None \<Rightarrow> False | Some t \<Rightarrow> t \<noteq> [])"

definition errorMessage :: "js_error \<Rightarrow> string" where
  "errorMessage e =
     toLowerCase
       (if truthy (err_message e) then the (err_message e)
        else if truthy (err_toString e) then the (err_toString e)
        else [])"

definition retryableMessages :: "string list" where
  "retryableMessages =
     [''failed to fetch'', ''network error'', ''err_name_not_resolved'', ''err_network'',
      ''err_internet_disconnected'', ''err_connection_timed_out'', ''timeout'']"

definition isRetryableError :: "js_error \<Rightarrow> bool" where
  "isRetryableError e = list_ex (\<lambda>msg. includes_str (errorMessage e) msg) retryableMessages"

text \<open>
  The operation is called once per pass of the loop, so it is given as the outcome of its
  call in pass \<open>attempt\<close>. The run returns what happened, in order (calls of the operation
  and waits in milliseconds), and the value returned or thrown; \<open>None\<close> is the
  \<open>undefined\<close> that \<open>throw lastError\<close> throws when the loop body never ran.
\<close>

datatype effect = Invoke nat | Wait int

function retry_from ::
  "(nat \<Rightarrow> js_error + 'a) \<Rightarrow> int \<Rightarrow> int \<Rightarrow> nat \<Rightarrow> js_error option
    \<Rightarrow> effect list \<times> (js_error option + 'a)" where
  "retry_from operation maxRetries delay attempt lastError =
     (if int attempt \<le> maxRetries then
        (case operation attempt of
           Inr v \<Rightarrow> ([Invoke attempt], Inr v)
         | Inl error \<Rightarrow>
             if \<not> isRetryableError error \<or> int attempt = maxRetries
             then ([Invoke attempt], Inl (Some error))
             else
               (let (effects, r) =
                      retry_from operation maxRetries delay (attempt + 1) (Some error)
                in (Invoke attempt # Wait (delay * 2 ^ attempt) # effects, r)))
      else ([], Inl lastError))"
  by pat_completeness auto
termination
  by (relation "measure (\<lambda>(operation, maxRetries, delay, attempt, lastError).
        nat (maxRetries + 1 - int attempt))") auto

definition retryOperation ::
  "(nat \<Rightarrow> js_error + 'a) \<Rightarrow> int \<Rightarrow> int \<Rightarrow> effect list \<times> (js_error option + 'a)" where
  "retryOperation operation maxRetries delay = retry_from operation maxRetries delay 0 None"

definition attempts_trace :: "int \<Rightarrow> nat \<Rightarrow> effect list" where
  \<comment> \<open>\<open>k\<close> failed calls, each followed by its wait, and one more call\<close>
  "attempts_trace delay k =
     concat (map (\<lambda>i. [Invoke i, Wait (delay * 2 ^ i)]) [0 ..< k]) @ [Invoke k]"

section \<open>Notions used in the statements\<close>

definition has_letter :: "string \<Rightarrow> bool" where
  \<comment> \<open>the word keeps a character after \<open>toLowerCase()\<close> and \<open>replace(/[^a-z]/g, '')\<close>\<close>
  "has_letter w = (filter is_az (toLowerCase w) \<noteq> [])"

definition span_of :: "SuggestionResponse \<Rightarrow> int \<times> int" where
  "span_of s = (start_index s, end_index s)"

fun in_order :: "string list \<Rightarrow> string \<Rightarrow> nat \<Rightarrow> bool" where
  \<comment> \<open>the words occur in the text one after the other, the first at or after position \<open>n\<close>\<close>
  "in_order [] s n = True"
| "in_order (w # ws) s n =
     (\<exists>p. n \<le> p \<and> p \<le> length s \<and> prefix w (drop p s) \<and> in_order ws s (p + length w))"

definition suggestion_summary :: "SuggestionResponse \<Rightarrow> int \<times> int \<times> issue_type \<times> string \<times> string" where
  "suggestion_summary s =
     (start_index s, end_index s, issue_type s, original_text s, suggested_text s)"

definition suggestion_place :: "SuggestionResponse \<Rightarrow> int \<times> int \<times> issue_type \<times> string" where
  "suggestion_place s = (start_index s, end_index s, issue_type s, original_text s)"

definition response_keys :: "http_response \<Rightarrow> string list" where
  "response_keys r = (case body r of JsonBody kvs \<Rightarrow> map fst kvs | _ \<Rightarrow> [])"

definition score_values :: "js_exception + ReadabilityScore list \<Rightarrow> real list" where
  "score_values r = (case r of Inl e \<Rightarrow> [] | Inr scores \<Rightarrow> map score_value scores)"

definition exact :: "real \<Rightarrow> real" where
  \<comment> \<open>arithmetic without rounding\<close>
  "exact x = x"

definition engine_inv :: "engine_state \<Rightarrow> bool" where
  \<comment> \<open>an armed timer is the one in \<open>debounceTimeout\<close>; handles in use are below the next
      one; an armed timer has not fired\<close>
  "engine_inv s \<longleftrightarrow>
     (\<forall>h\<in>set (pending s). debounceTimeout s = Some h)
     \<and> (\<forall>h\<in>set (pending s) \<union> set (in_flight s) \<union> set (delivered_handles s). h < nextHandle s)
     \<and> set (pending s) \<inter> (set (in_flight s) \<union> set (delivered_handles s)) = {}"

definition cancelled :: "engine_state \<Rightarrow> nat \<Rightarrow> bool" where
  \<comment> \<open>the handle was handed out and is neither armed, nor in flight, nor delivered\<close>
  "cancelled s h \<longleftrightarrow>
     h < nextHandle s \<and> h \<notin> set (pending s) \<and> h \<notin> set (in_flight s)
     \<and> h \<notin> set (delivered_handles s)"

section \<open>Tone: the dominant category\<close>

lemma maxScore_eq:
  "maxScore s =
     max (max (max (max (formalScore s) (casualScore s)) (confidentScore s)) (friendlyScore s))
       (professionalScore s)"
  by (simp add: maxScore_def score_entries_def)

lemma tone_detected_eq:
  "tone_detected s =
     (if formalScore s = maxScore s then formal
      else if casualScore s = maxScore s then casual
      else if confidentScore s = maxScore s then confident
      else if friendlyScore s = maxScore s then friendly
      else professional)"
  by (simp add: tone_detected_def dominantTone_def score_entries_def)

lemma maxScore_attained:
  "formalScore s = maxScore s \<or> casualScore s = maxScore s \<or> confidentScore s = maxScore s
     \<or> friendlyScore s = maxScore s \<or> professionalScore s = maxScore s"
  unfolding maxScore_eq by (simp add: max_def)

text \<open>
  C7. The tone that \<open>analyzeTone\<close> reports has the maximum of the five scores, no
  category scores more, and every category that also reaches the maximum comes later in
  the order formal, casual, confident, friendly, professional. When the five scores are
  equal the tone is formal. The scores are arbitrary integers here, so the statement
  covers the scores of every text.
\<close>

theorem dominant_tone_tie_break:
  "score_of s (tone_detected s) = maxScore s
   \<and> (\<forall>t. score_of s t \<le> maxScore s)
   \<and> (\<forall>t. score_of s t = maxScore s \<longrightarrow> tone_index (tone_detected s) \<le> tone_index t)
   \<and> (formalScore s = casualScore s \<and> casualScore s = confidentScore s
        \<and> confidentScore s = friendlyScore s \<and> friendlyScore s = professionalScore s
        \<longrightarrow> tone_detected s = formal)"
proof -
  have le: "score_of s t \<le> maxScore s" for t
    by (cases t) (simp_all add: score_of_def maxScore_eq)
  have a: "score_of s (tone_detected s) = maxScore s"
    using maxScore_attained [of s] by (auto simp: tone_detected_eq score_of_def)
  have b: "tone_index (tone_detected s) \<le> tone_index t" if "score_of s t = maxScore s" for t
    using that by (cases t) (auto simp: tone_detected_eq score_of_def tone_index_def)
  have c: "tone_detected s = formal"
    if "formalScore s = casualScore s" "casualScore s = confidentScore s"
       "confidentScore s = friendlyScore s" "friendlyScore s = professionalScore s"
    using that maxScore_attained [of s] by (auto simp: tone_detected_eq)
  show ?thesis using le a b c by blast
qed

theorem dominant_tone_tie_break_witness:
  "tone_detected \<lparr>formalScore = 15, casualScore = 15, confidentScore = 15, friendlyScore = 15,
     professionalScore = 15\<rparr> = formal
   \<and> tone_detected \<lparr>formalScore = 0, casualScore = 10, confidentScore = 25, friendlyScore = 25,
     professionalScore = 5\<rparr> = confident"
  using dominant_tone_tie_break [of "\<lparr>formalScore = 15, casualScore = 15, confidentScore = 15,
     friendlyScore = 15, professionalScore = 15\<rparr>"]
    dominant_tone_tie_break [of "\<lparr>formalScore = 0, casualScore = 10, confidentScore = 25,
     friendlyScore = 25, professionalScore = 5\<rparr>"]
  by (simp add: tone_detected_def dominantTone_def score_entries_def maxScore_def)

section \<open>Text metrics: syllables and words\<close>

lemma is_space_toLowerCaseChar: "is_space (toLowerCaseChar c) = is_space c"
  by (auto simp: is_space_def toLowerCaseChar_def Let_def)

lemma dropWhile_toLowerCase:
  "dropWhile is_space (toLowerCase cs) = toLowerCase (dropWhile is_space cs)"
  by (induction cs) (simp_all add: toLowerCase_def is_space_toLowerCaseChar)

lemma split_aux_toLowerCase:
  "split_aux is_space (toLowerCase cur) (toLowerCase cs)
     = map toLowerCase (split_aux is_space cur cs)"
proof (induction is_space cur cs rule: split_aux.induct)
  case (1 cur)
  then show ?case by (simp add: toLowerCase_def rev_map)
next
  case (2 cur c cs)
  show ?case
  proof (cases "is_space c")
    case True
    have "split_aux is_space (toLowerCase []) (toLowerCase (dropWhile is_space cs))
        = map toLowerCase (split_aux is_space [] (dropWhile is_space cs))"
      using "2.hyps"(1) True by simp
    then show ?thesis
      using True dropWhile_toLowerCase [of cs]
      by (simp add: toLowerCase_def is_space_toLowerCaseChar rev_map)
  next
    case False
    have "split_aux is_space (toLowerCase (c # cur)) (toLowerCase cs)
        = map toLowerCase (split_aux is_space (c # cur) cs)"
      using "2.hyps"(2) False by simp
    then show ?thesis
      using False by (simp add: toLowerCase_def is_space_toLowerCaseChar)
  qed
qed

lemma split_ws_toLowerCase: "split_ws (toLowerCase text) = map toLowerCase (split_ws text)"
  using split_aux_toLowerCase [of "[]" "text"]
  by (simp add: split_ws_def split_on_def toLowerCase_def)

lemma syllable_step_ge:
  "tot + (if filter is_az w \<noteq> [] then 1 else 0) \<le> syllable_step tot w"
  by (simp add: syllable_step_def Let_def)

lemma foldl_syllable_step_ge:
  "tot + length (filter (\<lambda>w. filter is_az w \<noteq> []) ws) \<le> foldl syllable_step tot ws"
proof (induction ws arbitrary: tot)
  case Nil
  then show ?case by simp
next
  case (Cons w ws)
  have "syllable_step tot w + length (filter (\<lambda>w. filter is_az w \<noteq> []) ws)
      \<le> foldl syllable_step (syllable_step tot w) ws"
    by (rule Cons.IH)
  with syllable_step_ge [of tot w] show ?case by (simp split: if_splits)
qed

text \<open>
  C6, amended. \<open>countSyllables\<close> skips a word that has no letter \<open>a-z\<close> after
  lower-casing, so the syllable count is at least the number of whitespace-separated
  non-empty words that contain a letter; when every word contains a letter it is at
  least the word count.
\<close>

theorem syllables_at_least_lettered_words:
  "length (filter has_letter (text_words text)) \<le> countSyllables text
   \<and> ((\<forall>w \<in> set (text_words text). has_letter w)
        \<longrightarrow> length (text_words text) \<le> countSyllables text)"
proof -
  have eq: "filter (\<lambda>w. filter is_az w \<noteq> [])
              (filter (\<lambda>w. length w > 0) (map toLowerCase (split_ws text)))
          = map toLowerCase (filter has_letter (text_words text))"
    by (simp add: text_words_def filter_map o_def has_letter_def toLowerCase_def)
  have cs: "countSyllables text
      = foldl syllable_step 0 (filter (\<lambda>w. length w > 0) (map toLowerCase (split_ws text)))"
    by (simp add: countSyllables_def split_ws_toLowerCase)
  have "length (filter has_letter (text_words text)) \<le> countSyllables text"
    using foldl_syllable_step_ge
      [of 0 "filter (\<lambda>w. length w > 0) (map toLowerCase (split_ws text))"]
    unfolding cs eq by simp
  moreover have "filter has_letter (text_words text) = text_words text"
    if "\<forall>w \<in> set (text_words text). has_letter w"
    using that by (simp add: filter_id_conv)
  ultimately show ?thesis by auto
qed

theorem syllables_at_least_lettered_words_witness:
  "list_all has_letter (text_words ''The quick fox'')
   \<and> length (text_words ''The quick fox'') = 3
   \<and> length (text_words ''The quick fox'') \<le> countSyllables ''The quick fox''"
  using syllables_at_least_lettered_words [of "''The quick fox''"]
  by (simp add: text_words_def split_ws_def split_on_def is_space_def has_letter_def
      toLowerCase_def toLowerCaseChar_def is_az_def)

text \<open>
  C6 as stated fails: the text \<open>42\<close> is not empty and has one word, and no syllable.
\<close>

theorem syllable_bound_fails_without_letters:
  "''42'' \<noteq> [] \<and> length (text_words ''42'') = 1 \<and> countSyllables ''42'' = 0
   \<and> \<not> length (text_words ''42'') \<le> countSyllables ''42''"
  by (simp add: text_words_def split_ws_def split_on_def is_space_def 
      toLowerCase_def toLowerCaseChar_def is_az_def countSyllables_def syllable_step_def)

section \<open>Retry: which calls are made, and when\<close>

lemmas char_eval = char_of_def bit_0

lemma index_scan_found:
  "prefix w (drop j s) \<Longrightarrow> j \<le> length s
     \<Longrightarrow> \<exists>i\<le>j. index_scan w s k = int (k + i) \<and> prefix w (drop i s)"
proof (induction s arbitrary: j k)
  case Nil
  then show ?case by simp
next
  case (Cons c cs)
  show ?case
  proof (cases "prefix w (c # cs)")
    case True
    then show ?thesis by auto
  next
    case False
    with Cons.prems obtain j' where j: "j = Suc j'" by (cases j) auto
    with Cons.prems have "prefix w (drop j' cs)" "j' \<le> length cs" by auto
    from Cons.IH [OF this, of "k + 1"] obtain i where
      "i \<le> j'" "index_scan w cs (k + 1) = int (k + 1 + i)" "prefix w (drop i cs)" by blast
    with False j show ?thesis by (intro exI [of _ "Suc i"]) auto
  qed
qed

lemma index_scan_result:
  "index_scan w s k = r \<Longrightarrow> r = -1 \<or> (\<exists>i\<le>length s. r = int (k + i) \<and> prefix w (drop i s))"
proof (induction s arbitrary: k)
  case Nil
  then show ?case by (auto split: if_splits)
next
  case (Cons c cs)
  show ?case
  proof (cases "prefix w (c # cs)")
    case True
    with Cons.prems show ?thesis by auto
  next
    case False
    with Cons.prems have "index_scan w cs (k + 1) = r" by simp
    from Cons.IH [OF this] show ?thesis
    proof
      assume "r = -1" then show ?thesis by simp
    next
      assume "\<exists>i\<le>length cs. r = int (k + 1 + i) \<and> prefix w (drop i cs)"
      then obtain i where "i \<le> length cs" "r = int (k + 1 + i)" "prefix w (drop i cs)" by blast
      then show ?thesis by (intro disjI2 exI [of _ "Suc i"]) auto
    qed
  qed
qed

lemma includes_str_iff_sublist: "includes_str s w \<longleftrightarrow> sublist w s"
proof
  assume "includes_str s w"
  then have "0 \<le> index_scan w s 0" by (simp add: includes_str_def indexOf_def)
  with index_scan_result [of w s 0 "index_scan w s 0"]
  obtain i where "prefix w (drop i s)" by auto
  then obtain zs where "drop i s = w @ zs" by (auto simp: prefix_def)
  then have "s = take i s @ w @ zs" by (metis append_take_drop_id)
  then show "sublist w s" unfolding sublist_def by blast
next
  assume "sublist w s"
  then obtain ps ss where s: "s = ps @ w @ ss" unfolding sublist_def by blast
  then have "prefix w (drop (length ps) s)" "length ps \<le> length s" by auto
  from index_scan_found [OF this, of 0] show "includes_str s w"
    by (auto simp: includes_str_def indexOf_def)
qed

lemma retry_from_run:
  assumes "a \<le> k" and "int k \<le> m"
    and "\<forall>i. a \<le> i \<and> i < k \<longrightarrow> (\<exists>e. operation i = Inl e \<and> isRetryableError e)"
    and "int k = m \<or> (\<forall>e. operation k = Inl e \<longrightarrow> \<not> isRetryableError e)"
  shows "retry_from operation m d a le
       = (concat (map (\<lambda>i. [Invoke i, Wait (d * 2 ^ i)]) [a ..< k]) @ [Invoke k],
          map_sum Some id (operation k))"
  using assms
proof (induction "k - a" arbitrary: a le)
  case 0
  then have ak: "a = k" by simp
  show ?case
  proof (cases "operation k")
    case (Inl e)
    with 0 ak show ?thesis by (subst retry_from.simps) auto
  next
    case (Inr v)
    with 0 ak show ?thesis by (subst retry_from.simps) auto
  qed
next
  case (Suc n)
  then have lt: "a < k" by simp
  with Suc.prems obtain e where e: "operation a = Inl e" "isRetryableError e" by blast
  have "retry_from operation m d (a + 1) (Some e)
      = (concat (map (\<lambda>i. [Invoke i, Wait (d * 2 ^ i)]) [a + 1 ..< k]) @ [Invoke k],
         map_sum Some id (operation k))"
    using Suc.hyps(2) Suc.prems lt by (intro Suc.hyps(1)) auto
  moreover have "[a ..< k] = a # [a + 1 ..< k]" using lt by (simp add: upt_conv_Cons)
  ultimately show ?case
    using e lt Suc.prems(2) by (subst retry_from.simps) auto
qed

lemma retry_stop_exists:
  fixes operation :: "nat \<Rightarrow> js_error + 'a"
  shows "\<exists>k\<le>3. (\<forall>i<k. \<exists>e. operation i = Inl e \<and> isRetryableError e)
      \<and> (k = 3 \<or> (\<forall>e. operation k = Inl e \<longrightarrow> \<not> isRetryableError e))"
proof -
  define P where "P i \<longleftrightarrow> (\<exists>e. operation i = Inl e \<and> isRetryableError e)" for i :: nat
  have "\<exists>k\<le>(3::nat). (\<forall>i<k. P i) \<and> (k = 3 \<or> \<not> P k)"
  proof (cases "P 0 \<and> P 1 \<and> P 2")
    case True
    have "\<forall>i<(3::nat). P i"
    proof (intro allI impI)
      fix i :: nat assume "i < 3"
      then have "i = 0 \<or> i = 1 \<or> i = 2" by arith
      with True show "P i" by auto
    qed
    then show ?thesis by blast
  next
    case False
    then have ex: "\<exists>i. \<not> P i" by blast
    define k where "k = (LEAST i. \<not> P i)"
    have nk: "\<not> P k" unfolding k_def using ex by (rule LeastI_ex)
    have le: "k \<le> 2"
    proof -
      from False consider "\<not> P 0" | "\<not> P 1" | "\<not> P 2" by blast
      then show ?thesis
      proof cases
        case 1 then show ?thesis unfolding k_def using Least_le [of "\<lambda>i. \<not> P i" 0] by simp
      next
        case 2 then show ?thesis unfolding k_def using Least_le [of "\<lambda>i. \<not> P i" 1] by simp
      next
        case 3 then show ?thesis unfolding k_def using Least_le [of "\<lambda>i. \<not> P i" 2] by simp
      qed
    qed
    have "\<forall>i<k. P i" unfolding k_def using not_less_Least by blast
    with nk le show ?thesis by (intro exI [of _ k]) auto
  qed
  then show ?thesis unfolding P_def by blast
qed


lemma failed_to_fetch_retryable: "isRetryableError (JsError (Some ''TypeError: Failed to fetch'') None)"
  by (simp add: isRetryableError_def retryableMessages_def errorMessage_def truthy_def
      toLowerCase_def toLowerCaseChar_def includes_str_def indexOf_def char_of_def bit_0)

lemma invalid_login_not_retryable: "\<not> isRetryableError (JsError (Some ''Invalid login credentials'') None)"
  by (simp add: isRetryableError_def retryableMessages_def errorMessage_def truthy_def
      toLowerCase_def toLowerCaseChar_def includes_str_def indexOf_def char_of_def bit_0)

text \<open>
  C8. With the default of three retries, let \<open>k \<le> 3\<close> be the first pass whose call
  does not fail with a retryable error, or 3 when the first three calls all fail so
  (\<open>retry_stop_exists\<close>: there always is such a pass). Then \<open>retryOperation\<close> makes exactly
  the calls 0 to \<open>k\<close>, waits \<open>delay * 2 ^ i\<close> after the failed call \<open>i < k\<close> (so \<open>delay\<close>,
  \<open>2 * delay\<close>, \<open>4 * delay\<close>), and ends with the outcome of call \<open>k\<close>: its value, or its
  error thrown on. An error is retryable exactly when its lower-cased message contains
  one of the seven phrases.
\<close>

theorem retry_policy:
  assumes "k \<le> 3"
    and "\<forall>i<k. \<exists>e. operation i = Inl e \<and> isRetryableError e"
    and "k = 3 \<or> (\<forall>e. operation k = Inl e \<longrightarrow> \<not> isRetryableError e)"
  shows "retryOperation operation 3 delay = (attempts_trace delay k, map_sum Some id (operation k))
    \<and> attempts_trace delay 3
        = [Invoke 0, Wait delay, Invoke 1, Wait (2 * delay), Invoke 2, Wait (4 * delay), Invoke 3]
    \<and> (\<forall>e. isRetryableError e
          \<longleftrightarrow> (\<exists>phrase \<in> set retryableMessages. sublist phrase (errorMessage e)))"
proof -
  have "retryOperation operation 3 delay = (attempts_trace delay k, map_sum Some id (operation k))"
    unfolding retryOperation_def attempts_trace_def
    using assms by (intro retry_from_run) auto
  moreover have "attempts_trace delay 3
        = [Invoke 0, Wait delay, Invoke 1, Wait (2 * delay), Invoke 2, Wait (4 * delay), Invoke 3]"
    by (simp add: attempts_trace_def upt_rec)
  moreover have "isRetryableError e
          \<longleftrightarrow> (\<exists>phrase \<in> set retryableMessages. sublist phrase (errorMessage e))" for e
    by (simp add: isRetryableError_def list_ex_iff includes_str_iff_sublist)
  ultimately show ?thesis by blast
qed

theorem retry_policy_witness:
  "retryOperation (\<lambda>i. Inl (JsError (Some ''TypeError: Failed to fetch'') None) :: js_error + nat) 3 1000
     = ([Invoke 0, Wait 1000, Invoke 1, Wait 2000, Invoke 2, Wait 4000, Invoke 3],
        Inl (Some (JsError (Some ''TypeError: Failed to fetch'') None)))
   \<and> retryOperation (\<lambda>i. Inl (JsError (Some ''Invalid login credentials'') None) :: js_error + nat) 3 1000
     = ([Invoke 0], Inl (Some (JsError (Some ''Invalid login credentials'') None)))"
proof -
  have a: "\<forall>i<3. \<exists>e. (Inl (JsError (Some ''TypeError: Failed to fetch'') None) :: js_error + nat) = Inl e
      \<and> isRetryableError e"
    using failed_to_fetch_retryable by simp
  have b: "\<forall>e. (Inl (JsError (Some ''Invalid login credentials'') None) :: js_error + nat) = Inl e
      \<longrightarrow> \<not> isRetryableError e"
    using invalid_login_not_retryable by simp
  have c: "attempts_trace 1000 0 = [Invoke 0]"
    by (simp add: attempts_trace_def)
  have d: "attempts_trace 1000 3 = [Invoke 0, Wait 1000, Invoke 1, Wait 2000, Invoke 2, Wait 4000, Invoke 3]"
    by (simp add: attempts_trace_def upt_rec)
  from a have "retryOperation (\<lambda>i. Inl (JsError (Some ''TypeError: Failed to fetch'') None) :: js_error + nat) 3 1000
      = (attempts_trace 1000 3, Inl (Some (JsError (Some ''TypeError: Failed to fetch'') None)))"
    using retry_policy [of 3 "\<lambda>i. Inl (JsError (Some ''TypeError: Failed to fetch'') None) :: js_error + nat" 1000,
        THEN conjunct1]
    by simp
  moreover from b have "retryOperation (\<lambda>i. Inl (JsError (Some ''Invalid login credentials'') None) :: js_error + nat) 3 1000
      = (attempts_trace 1000 0, Inl (Some (JsError (Some ''Invalid login credentials'') None)))"
    using retry_policy [of 0 "\<lambda>i. Inl (JsError (Some ''Invalid login credentials'') None) :: js_error + nat" 1000,
        THEN conjunct1]
    by simp
  ultimately show ?thesis unfolding c d by simp
qed

section \<open>Reconciliation of remote and local suggestions\<close>

subsection \<open>findIndex and the filter on first positions\<close>

lemma findIndex_bounds: "- 1 \<le> findIndex P xs \<and> findIndex P xs < int (length xs)"
  by (induction xs) (auto simp: Let_def)

lemma findIndex_neg_iff: "findIndex P xs < 0 \<longleftrightarrow> \<not> (\<exists>x\<in>set xs. P x)"
  using findIndex_bounds [of P] by (induction xs) (auto simp: Let_def)

lemma findIndex_append:
  "findIndex P (xs @ ys) =
     (if \<exists>x\<in>set xs. P x then findIndex P xs
      else if findIndex P ys < 0 then - 1
      else int (length xs) + findIndex P ys)"
proof (induction xs)
  case Nil
  then show ?case using findIndex_bounds [of P ys] by auto
next
  case (Cons x xs)
  then show ?case using findIndex_neg_iff [of P xs] by (auto simp: Let_def)
qed

lemma findIndex_snoc_new:
  "\<not> (\<exists>x\<in>set xs. P x) \<Longrightarrow> P y \<Longrightarrow> findIndex P (xs @ [y]) = int (length xs)"
  by (simp add: findIndex_append)

lemma span_of_image_iff:
  "span_of x \<in> span_of ` set xs
     \<longleftrightarrow> (\<exists>s\<in>set xs. start_index s = start_index x \<and> end_index s = end_index x)"
proof
  assume "span_of x \<in> span_of ` set xs"
  then obtain s where "s \<in> set xs" "span_of x = span_of s" by blast
  then show "\<exists>s\<in>set xs. start_index s = start_index x \<and> end_index s = end_index x"
    by (intro bexI [of _ s]) (simp_all add: span_of_def)
next
  assume "\<exists>s\<in>set xs. start_index s = start_index x \<and> end_index s = end_index x"
  then obtain s where s: "s \<in> set xs" "start_index s = start_index x" "end_index s = end_index x"
    by blast
  then have "span_of s = span_of x" by (simp add: span_of_def)
  with s(1) show "span_of x \<in> span_of ` set xs" by (metis imageI)
qed

lemma uniqueSuggestions_snoc:
  "uniqueSuggestions (xs @ [x])
     = uniqueSuggestions xs @ (if span_of x \<in> span_of ` set xs then [] else [x])"
proof -
  let ?Q = "\<lambda>y s. start_index s = start_index y \<and> end_index s = end_index y"
  have zip: "zip (xs @ [x]) [0 ..< length (xs @ [x])] = zip xs [0 ..< length xs] @ [(x, length xs)]"
    by simp
  have old: "filter (\<lambda>(y, i). int i = findIndex (?Q y) (xs @ [x])) (zip xs [0 ..< length xs])
      = filter (\<lambda>(y, i). int i = findIndex (?Q y) xs) (zip xs [0 ..< length xs])"
  proof (rule filter_cong [OF refl])
    fix p assume p: "p \<in> set (zip xs [0 ..< length xs])"
    obtain y i where yi: "p = (y, i)" by (cases p)
    with p have "y \<in> set xs" by (auto dest: set_zip_leftD)
    with yi have "fst p \<in> set xs" by simp
    then have "\<exists>s\<in>set xs. ?Q (fst p) s" by blast
    then have "findIndex (?Q (fst p)) (xs @ [x]) = findIndex (?Q (fst p)) xs"
      by (simp only: findIndex_append if_True)
    then show "(case p of (y, i) \<Rightarrow> int i = findIndex (?Q y) (xs @ [x]))
        = (case p of (y, i) \<Rightarrow> int i = findIndex (?Q y) xs)"
      by (cases p) simp
  qed
  have new: "int (length xs) = findIndex (?Q x) (xs @ [x]) \<longleftrightarrow> span_of x \<notin> span_of ` set xs"
  proof (cases "\<exists>s\<in>set xs. ?Q x s")
    case True
    then have "findIndex (?Q x) (xs @ [x]) = findIndex (?Q x) xs"
      by (simp only: findIndex_append if_True)
    moreover have "findIndex (?Q x) xs < int (length xs)" using findIndex_bounds by blast
    moreover from True have "span_of x \<in> span_of ` set xs" by (simp add: span_of_image_iff)
    ultimately show ?thesis by simp
  next
    case False
    then have "findIndex (?Q x) (xs @ [x]) = int (length xs)"
      by (intro findIndex_snoc_new) simp_all
    moreover from False have "span_of x \<notin> span_of ` set xs" by (simp add: span_of_image_iff)
    ultimately show ?thesis by simp
  qed
  show ?thesis
    unfolding uniqueSuggestions_def zip filter_append map_append old
    using new by simp
qed

lemma uniqueSuggestions_Nil: "uniqueSuggestions [] = []"
  by (simp add: uniqueSuggestions_def)

lemma uniqueSuggestions_subseq: "subseq (uniqueSuggestions xs) xs"
proof (induction xs rule: rev_induct)
  case Nil
  then show ?case by (simp add: uniqueSuggestions_Nil)
next
  case (snoc x xs)
  have "subseq (if span_of x \<in> span_of ` set xs then [] else [x]) [x]" by simp
  with snoc show ?case
    unfolding uniqueSuggestions_snoc by (rule list_emb_append_mono)
qed

lemma find_append_list:
  "find P (xs @ ys) = (case find P xs of None \<Rightarrow> find P ys | Some x \<Rightarrow> Some x)"
  by (induction xs) auto

lemma uniqueSuggestions_by_span:
  "filter (\<lambda>y. span_of y = k) (uniqueSuggestions xs)
     = (case find (\<lambda>y. span_of y = k) xs of None \<Rightarrow> [] | Some y \<Rightarrow> [y])"
proof (induction xs rule: rev_induct)
  case Nil
  then show ?case by (simp add: uniqueSuggestions_Nil)
next
  case (snoc x xs)
  show ?case
  proof (cases "find (\<lambda>y. span_of y = k) xs")
    case None
    then have "\<not> (\<exists>y\<in>set xs. span_of y = k)" by (simp add: find_None_iff)
    then have "span_of x = k \<Longrightarrow> span_of x \<notin> span_of ` set xs" by auto
    with None snoc show ?thesis
      by (auto simp: uniqueSuggestions_snoc find_append_list)
  next
    case (Some y)
    then have "y \<in> set xs" "span_of y = k" by (auto simp: find_Some_iff)
    then have "span_of x = k \<Longrightarrow> span_of x \<in> span_of ` set xs" by (metis image_eqI)
    with Some snoc show ?thesis
      by (auto simp: uniqueSuggestions_snoc find_append_list)
  qed
qed

lemma uniqueSuggestions_distinct: "distinct (map span_of (uniqueSuggestions xs))"
proof (induction xs rule: rev_induct)
  case Nil
  then show ?case by (simp add: uniqueSuggestions_Nil)
next
  case (snoc x xs)
  have "set (uniqueSuggestions xs) \<subseteq> set xs"
    using uniqueSuggestions_subseq [of xs] by (auto dest: list_emb_set)
  then have "span_of x \<notin> span_of ` set xs \<Longrightarrow> span_of x \<notin> span_of ` set (uniqueSuggestions xs)" by auto
  with snoc show ?case by (auto simp: uniqueSuggestions_snoc)
qed

subsection \<open>The words of a text occur in it in order\<close>

lemma in_order_mono: "in_order ws s n \<Longrightarrow> m \<le> n \<Longrightarrow> in_order ws s m"
proof (cases ws)
  case Nil
  then show ?thesis by simp
next
  case (Cons w ws')
  assume "in_order ws s n" "m \<le> n"
  with Cons obtain p where "n \<le> p" "p \<le> length s" "prefix w (drop p s)"
    "in_order ws' s (p + length w)" by auto
  with \<open>m \<le> n\<close> Cons show ?thesis by (auto intro!: exI [of _ p])
qed

lemma split_aux_in_order:
  "s = pre @ rev cur @ cs \<Longrightarrow> in_order (split_aux sep cur cs) s (length pre)"
proof (induction sep cur cs arbitrary: pre rule: split_aux.induct)
  case (1 sep cur)
  then show ?case by auto
next
  case (2 sep cur c cs)
  show ?case
  proof (cases "sep c")
    case True
    have s: "s = (pre @ rev cur @ c # takeWhile sep cs) @ rev [] @ dropWhile sep cs"
      using "2.prems" by simp
    have "in_order (split_aux sep [] (dropWhile sep cs)) s
            (length (pre @ rev cur @ c # takeWhile sep cs))"
      using "2.IH"(1) [OF True s] .
    then have rest: "in_order (split_aux sep [] (dropWhile sep cs)) s (length pre + length (rev cur))"
      by (rule in_order_mono) simp
    have "prefix (rev cur) (drop (length pre) s)" using "2.prems" by simp
    moreover have "length pre \<le> length s" using "2.prems" by simp
    ultimately show ?thesis using True rest by auto
  next
    case False
    have "s = pre @ rev (c # cur) @ cs" using "2.prems" by simp
    from "2.IH"(2) [OF False this] False show ?thesis by simp
  qed
qed

lemma split_ws_in_order: "in_order (split_ws s) s 0"
  using split_aux_in_order [of s "[]" "[]" s is_space]
  by (simp add: split_ws_def split_on_def)

lemma indexOf_found:
  assumes "n \<le> p" "p \<le> length s" "prefix w (drop p s)"
  shows "\<exists>q. indexOf s w (int n) = int q \<and> n \<le> q \<and> q \<le> p"
proof -
  have "prefix w (drop (p - n) (drop n s))" using assms by simp
  moreover have "p - n \<le> length (drop n s)" using assms by simp
  ultimately obtain i where "i \<le> p - n" "index_scan w (drop n s) n = int (n + i)"
    using index_scan_found [of w "p - n" "drop n s" n] by blast
  moreover have "nat (max 0 (min (int n) (int (length s)))) = n" using assms by simp
  ultimately show ?thesis
    using assms by (intro exI [of _ "n + i"]) (simp add: indexOf_def)
qed

lemma basic_loop_sorted:
  "in_order ws s n \<Longrightarrow>
     sorted (map start_index (basic_loop s d ws wi (int n)))
     \<and> (\<forall>x\<in>set (basic_loop s d ws wi (int n)). int n \<le> start_index x)"
proof (induction ws arbitrary: n wi)
  case Nil
  then show ?case by simp
next
  case (Cons w ws)
  then obtain p where p: "n \<le> p" "p \<le> length s" "prefix w (drop p s)"
    "in_order ws s (p + length w)" by auto
  from indexOf_found [OF p(1,2,3)] obtain q where
    q: "indexOf s w (int n) = int q" "n \<le> q" "q \<le> p" by blast
  have "in_order ws s (q + length w)" using p(4) q(3) by (rule_tac in_order_mono) auto
  from Cons.IH [OF this, of "wi + 1"] have
    ih: "sorted (map start_index (basic_loop s d ws (wi + 1) (int (q + length w))))"
      "\<forall>x\<in>set (basic_loop s d ws (wi + 1) (int (q + length w))). int (q + length w) \<le> start_index x"
    by auto
  show ?case
  proof (cases "commonMisspellings (clean_word w)")
    case None
    with ih q show ?thesis by (fastforce simp: Let_def)
  next
    case (Some v)
    with ih q show ?thesis by (fastforce simp: Let_def)
  qed
qed

lemma generateBasicSuggestions_sorted:
  "sorted (map start_index (generateBasicSuggestions s d))"
  using basic_loop_sorted [OF split_ws_in_order, of s d 0]
  by (simp add: generateBasicSuggestions_def)

lemmas string_eval =
  split_ws_def split_on_def is_space_def clean_word_def toLowerCase_def toLowerCaseChar_def
  char_of_def bit_0 is_punct_def commonMisspellings_def misspelling_table_def indexOf_def
  replace_str_def as_replacement_def as_text_def dquote_def substring_def substring_from_def

lemma serve_not_ok:
  "text \<noteq> [] \<Longrightarrow> documentId \<noteq> [] \<Longrightarrow> length text \<le> 50000 \<Longrightarrow>
   serve \<lparr>req_method = POST, req_text = text, req_documentId = documentId\<rparr> (RemoteNotOk code)
     = \<lparr>status = 200,
        body = JsonBody [(''suggestions'', JsonSuggestions (generateBasicSuggestions text documentId))]\<rparr>"
  by (simp add: serve_def Let_def)

lemma serve_ok:
  "text \<noteq> [] \<Longrightarrow> documentId \<noteq> [] \<Longrightarrow> length text \<le> 50000 \<Longrightarrow>
   serve \<lparr>req_method = POST, req_text = text, req_documentId = documentId\<rparr> (RemoteOk matches)
     = \<lparr>status = 200,
        body = JsonBody [(''suggestions'', JsonSuggestions (uniqueSuggestions
          (convert_matches text documentId matches @ generateBasicSuggestions text documentId)))]\<rparr>"
  by (simp add: serve_def Let_def)

lemma fox_local:
  "generateBasicSuggestions ''Teh qick brown fox.'' d =
     [\<lparr>sugg_id = BasicSpellId 0 0, document_id = d, start_index = 0, end_index = 3,
       issue_type = spelling, original_text = ''Teh'', suggested_text = ''Teh'',
       explanation = ''Spelling: '' @ [dquote] @ ''Teh'' @ [dquote] @ '' should be '' @ [dquote] @ ''the'' @ [dquote],
       accepted = False\<rparr>]"
  by (simp add: generateBasicSuggestions_def string_eval)

lemma teh_cat_local:
  "generateBasicSuggestions ''Teh cat'' d =
     [\<lparr>sugg_id = BasicSpellId 0 0, document_id = d, start_index = 0, end_index = 3,
       issue_type = spelling, original_text = ''Teh'', suggested_text = ''Teh'',
       explanation = ''Spelling: '' @ [dquote] @ ''Teh'' @ [dquote] @ '' should be '' @ [dquote] @ ''the'' @ [dquote],
       accepted = False\<rparr>]"
  by (simp add: generateBasicSuggestions_def string_eval)

lemma subseq_sorted_map:
  "subseq xs ys \<Longrightarrow> sorted (map f ys) \<Longrightarrow> sorted (map f xs)"
proof (induction rule: list_emb.induct)
  case (list_emb_Nil ys)
  then show ?case by simp
next
  case (list_emb_Cons xs ys y)
  then show ?case by simp
next
  case (list_emb_Cons2 x y xs ys)
  then have "set xs \<subseteq> set ys" by (auto dest: list_emb_set)
  with list_emb_Cons2 show ?case by auto
qed

lemma convert_matches_ids:
  "x \<in> set (convert_matches text doc matches) \<Longrightarrow> \<exists>i off. sugg_id x = LtId i off"
  by (auto simp: convert_matches_def convert_match_def Let_def)

lemma basic_loop_ids:
  "x \<in> set (basic_loop text doc ws wi cur) \<Longrightarrow> \<exists>i off. sugg_id x = BasicSpellId i off"
  by (induction ws arbitrary: wi cur) (auto simp: Let_def split: option.splits)

lemma remote_local_disjoint:
  "r \<in> set (convert_matches text doc matches) \<Longrightarrow> l \<in> set (generateBasicSuggestions text doc)
     \<Longrightarrow> r \<noteq> l"
  using convert_matches_ids [of r "text" doc matches] basic_loop_ids [of l "text" doc "split_ws text" 0 0]
  by (auto simp: generateBasicSuggestions_def)

text \<open>
  C2. For a valid request and an ok reply of the remote checker, the function returns
  the list that \<open>uniqueSuggestions\<close> makes of the remote suggestions followed by the
  local ones. In it no two suggestions have the same \<open>(start_index, end_index)\<close>, and
  for every span what is kept is the first suggestion of the concatenation with that
  span. So when a remote suggestion and a local one have the same span, exactly one
  suggestion with that span is returned, it is the first remote one with that span, and
  the local one is not returned.
\<close>

theorem remote_wins_on_equal_span:
  assumes "text \<noteq> []" and "doc \<noteq> []" and "length text \<le> 50000"
    and "R = convert_matches text doc matches"
    and "L = generateBasicSuggestions text doc"
    and "out = uniqueSuggestions (R @ L)"
  shows "response_suggestions
           (serve \<lparr>req_method = POST, req_text = text, req_documentId = doc\<rparr> (RemoteOk matches))
           = Some out
    \<and> distinct (map span_of out)
    \<and> (\<forall>k. filter (\<lambda>x. span_of x = k) out
          = (case find (\<lambda>x. span_of x = k) (R @ L) of None \<Rightarrow> [] | Some y \<Rightarrow> [y]))
    \<and> (\<forall>r\<in>set R. \<forall>l\<in>set L. span_of l = span_of r \<longrightarrow>
          (\<exists>r'\<in>set R. find (\<lambda>x. span_of x = span_of r) R = Some r'
              \<and> filter (\<lambda>x. span_of x = span_of r) out = [r'])
          \<and> l \<notin> set out)"
proof -
  have resp: "response_suggestions
           (serve \<lparr>req_method = POST, req_text = text, req_documentId = doc\<rparr> (RemoteOk matches))
           = Some out"
    using assms by (simp add: serve_ok response_suggestions_def)
  have dist: "distinct (map span_of out)"
    using assms(6) by (simp add: uniqueSuggestions_distinct)
  have win: "(\<exists>r'\<in>set R. find (\<lambda>x. span_of x = span_of r) R = Some r'
              \<and> filter (\<lambda>x. span_of x = span_of r) out = [r']) \<and> l \<notin> set out"
    if r: "r \<in> set R" and l: "l \<in> set L" and eq: "span_of l = span_of r" for r l
  proof -
    from r obtain r' where r': "find (\<lambda>x. span_of x = span_of r) R = Some r'"
      by (cases "find (\<lambda>x. span_of x = span_of r) R") (auto simp: find_None_iff)
    then have r'R: "r' \<in> set R" by (auto simp: find_Some_iff)
    have f: "filter (\<lambda>x. span_of x = span_of r) out = [r']"
      using r' assms(6) by (simp add: uniqueSuggestions_by_span find_append_list)
    have "l \<notin> set out"
    proof
      assume "l \<in> set out"
      with eq have "l \<in> set (filter (\<lambda>x. span_of x = span_of r) out)" by simp
      with f have "l = r'" by simp
      with r'R l remote_local_disjoint [of r' "text" doc matches l] assms(4,5)
      show False by simp
    qed
    with r' r'R f show ?thesis by blast
  qed
  have first: "filter (\<lambda>x. span_of x = k) out
      = (case find (\<lambda>x. span_of x = k) (R @ L) of None \<Rightarrow> [] | Some y \<Rightarrow> [y])" for k
    using assms(6) by (simp only: uniqueSuggestions_by_span)
  from resp dist first win show ?thesis by blast
qed

text \<open>
  C3, amended. When the remote checker answers with a status that is not ok, the
  returned list is the local one and it is sorted ascending by \<open>start_index\<close>. When
  the remote checker answers ok, the returned list is a subsequence of the remote
  suggestions followed by the local ones, in that order: nothing is sorted, and the list
  is sorted when that concatenation is.
\<close>

theorem fallback_sorted_merge_keeps_order:
  assumes "text \<noteq> []" and "doc \<noteq> []" and "length text \<le> 50000"
    and "R = convert_matches text doc matches"
    and "L = generateBasicSuggestions text doc"
  shows "(\<exists>out. response_suggestions
            (serve \<lparr>req_method = POST, req_text = text, req_documentId = doc\<rparr> (RemoteNotOk code))
            = Some out \<and> out = L \<and> sorted (map start_index out))
    \<and> (\<exists>out. response_suggestions
            (serve \<lparr>req_method = POST, req_text = text, req_documentId = doc\<rparr> (RemoteOk matches))
            = Some out \<and> subseq out (R @ L)
            \<and> (sorted (map start_index (R @ L)) \<longrightarrow> sorted (map start_index out)))"
proof -
  have a: "response_suggestions
            (serve \<lparr>req_method = POST, req_text = text, req_documentId = doc\<rparr> (RemoteNotOk code))
            = Some L"
    using assms by (simp add: serve_not_ok response_suggestions_def)
  have b: "sorted (map start_index L)"
    using assms(5) by (simp add: generateBasicSuggestions_sorted)
  have c: "response_suggestions
            (serve \<lparr>req_method = POST, req_text = text, req_documentId = doc\<rparr> (RemoteOk matches))
            = Some (uniqueSuggestions (R @ L))"
    using assms by (simp add: serve_ok response_suggestions_def)
  have d: "subseq (uniqueSuggestions (R @ L)) (R @ L)" by (rule uniqueSuggestions_subseq)
  have e: "sorted (map start_index (uniqueSuggestions (R @ L)))"
    if "sorted (map start_index (R @ L))"
    using d that by (rule subseq_sorted_map)
  from a b c d e show ?thesis by blast
qed

lemma teh_cat_remote:
  "convert_matches ''teh cat'' ''d1''
     [\<lparr>message = ''Possible spelling mistake found.'', offset = 0, match_length = 3,
       replacements = [''the''], rule_id = ''MORFOLOGIK_RULE_EN_US'', category_id = ''TYPOS''\<rparr>]
   = [\<lparr>sugg_id = LtId 0 0, document_id = ''d1'', start_index = 0, end_index = 3,
       issue_type = spelling, original_text = ''teh'', suggested_text = ''the'',
       explanation = ''Possible spelling mistake found.'', accepted = False\<rparr>]"
  by (simp add: convert_matches_def convert_match_def includes_str_def string_eval)

lemma teh_cat_lower_local:
  "generateBasicSuggestions ''teh cat'' ''d1'' =
     [\<lparr>sugg_id = BasicSpellId 0 0, document_id = ''d1'', start_index = 0, end_index = 3,
       issue_type = spelling, original_text = ''teh'', suggested_text = ''the'',
       explanation = ''Spelling: '' @ [dquote] @ ''teh'' @ [dquote] @ '' should be '' @ [dquote] @ ''the'' @ [dquote],
       accepted = False\<rparr>]"
  by (simp add: generateBasicSuggestions_def string_eval)

theorem remote_wins_on_equal_span_witness:
  "response_suggestions
     (serve \<lparr>req_method = POST, req_text = ''teh cat'', req_documentId = ''d1''\<rparr>
        (RemoteOk [\<lparr>message = ''Possible spelling mistake found.'', offset = 0, match_length = 3,
           replacements = [''the''], rule_id = ''MORFOLOGIK_RULE_EN_US'', category_id = ''TYPOS''\<rparr>]))
     = Some [\<lparr>sugg_id = LtId 0 0, document_id = ''d1'', start_index = 0, end_index = 3,
         issue_type = spelling, original_text = ''teh'', suggested_text = ''the'',
         explanation = ''Possible spelling mistake found.'', accepted = False\<rparr>]
   \<and> map span_of (generateBasicSuggestions ''teh cat'' ''d1'') = [(0, 3)]
   \<and> map sugg_id (generateBasicSuggestions ''teh cat'' ''d1'') = [BasicSpellId 0 0]"
proof -
  let ?r = "\<lparr>sugg_id = LtId 0 0, document_id = ''d1'', start_index = 0, end_index = 3,
         issue_type = spelling, original_text = ''teh'', suggested_text = ''the'',
         explanation = ''Possible spelling mistake found.'', accepted = False\<rparr>"
  let ?l = "\<lparr>sugg_id = BasicSpellId 0 0, document_id = ''d1'', start_index = 0, end_index = 3,
       issue_type = spelling, original_text = ''teh'', suggested_text = ''the'',
       explanation = ''Spelling: '' @ [dquote] @ ''teh'' @ [dquote] @ '' should be '' @ [dquote] @ ''the'' @ [dquote],
       accepted = False\<rparr>"
  have u: "[?r] = uniqueSuggestions ([?r] @ [?l])"
    by (simp add: uniqueSuggestions_def)
  have t: "''teh cat'' \<noteq> []" "''d1'' \<noteq> []" "length ''teh cat'' \<le> 50000" by simp_all
  note T = remote_wins_on_equal_span [OF t teh_cat_remote [symmetric] teh_cat_lower_local [symmetric] u]
  from T have "response_suggestions
     (serve \<lparr>req_method = POST, req_text = ''teh cat'', req_documentId = ''d1''\<rparr>
        (RemoteOk [\<lparr>message = ''Possible spelling mistake found.'', offset = 0, match_length = 3,
           replacements = [''the''], rule_id = ''MORFOLOGIK_RULE_EN_US'', category_id = ''TYPOS''\<rparr>]))
     = Some [?r]" by (rule conjunct1)
  then show ?thesis by (simp add: teh_cat_lower_local span_of_def)
qed

theorem fallback_sorted_merge_keeps_order_witness:
  "map_option (map start_index) (response_suggestions
     (serve \<lparr>req_method = POST, req_text = ''teh adn'', req_documentId = ''d1''\<rparr> (RemoteNotOk 503)))
     = Some [0, 4]
   \<and> map_option (map start_index) (response_suggestions
     (serve \<lparr>req_method = POST, req_text = ''teh adn'', req_documentId = ''d1''\<rparr> (RemoteOk [])))
     = Some [0, 4]"
proof -
  have l: "map start_index (generateBasicSuggestions ''teh adn'' ''d1'') = [0, 4]"
    by (simp add: generateBasicSuggestions_def string_eval)
  have r: "[] = convert_matches ''teh adn'' ''d1'' []"
    by (simp add: convert_matches_def)
  have t: "''teh adn'' \<noteq> []" "''d1'' \<noteq> []" "length ''teh adn'' \<le> 50000" by simp_all
  note T = fallback_sorted_merge_keeps_order [OF t r refl, of 503]
  from T obtain out1 out2 where
    o1: "response_suggestions
       (serve \<lparr>req_method = POST, req_text = ''teh adn'', req_documentId = ''d1''\<rparr> (RemoteNotOk 503))
       = Some out1" "out1 = generateBasicSuggestions ''teh adn'' ''d1''"
    and o2: "response_suggestions
       (serve \<lparr>req_method = POST, req_text = ''teh adn'', req_documentId = ''d1''\<rparr> (RemoteOk []))
       = Some out2" by blast
  have "response_suggestions
       (serve \<lparr>req_method = POST, req_text = ''teh adn'', req_documentId = ''d1''\<rparr> (RemoteOk []))
       = Some (uniqueSuggestions (generateBasicSuggestions ''teh adn'' ''d1''))"
    by (simp add: serve_def Let_def response_suggestions_def convert_matches_def)
  moreover have "map start_index (uniqueSuggestions (generateBasicSuggestions ''teh adn'' ''d1'')) = [0, 4]"
    by (simp add: generateBasicSuggestions_def string_eval uniqueSuggestions_def)
  ultimately show ?thesis using o1 l by simp
qed

text \<open>
  C3 as stated fails on the merged path: a remote match at offset 11 comes before the
  local suggestion at offset 0.
\<close>

theorem merged_list_not_sorted:
  "map_option (map start_index) (response_suggestions
     (serve \<lparr>req_method = POST, req_text = ''teh cat is herre'', req_documentId = ''d1''\<rparr>
        (RemoteOk [\<lparr>message = ''Possible spelling mistake found.'', offset = 11, match_length = 5,
           replacements = [''here''], rule_id = ''MORFOLOGIK_RULE_EN_US'', category_id = ''TYPOS''\<rparr>])))
     = Some [11, 0]
   \<and> \<not> sorted [11, 0 :: int]"
  by (simp add: serve_def Let_def response_suggestions_def convert_matches_def convert_match_def
      includes_str_def generateBasicSuggestions_def string_eval uniqueSuggestions_def)

text \<open>
  C4 as stated fails: the body has no field \<open>degraded\<close>, and the one suggestion has the
  suggested text \<open>Teh\<close>, not \<open>the\<close>.
\<close>

theorem degraded_scenario_fails:
  "response_field
     (serve \<lparr>req_method = POST, req_text = ''Teh qick brown fox.'', req_documentId = ''d1''\<rparr>
        (RemoteNotOk 503)) ''degraded'' = None
   \<and> map_option (map suggestion_summary) (response_suggestions
     (serve \<lparr>req_method = POST, req_text = ''Teh qick brown fox.'', req_documentId = ''d1''\<rparr>
        (RemoteNotOk 503)))
     = Some [(0, 3, spelling, ''Teh'', ''Teh'')]"
  by (simp add: serve_def Let_def response_field_def response_suggestions_def fox_local
      suggestion_summary_def)

text \<open>
  C4, amended. For the text \<open>Teh qick brown fox.\<close>, any non-empty document id and any
  remote status that is not ok, the function answers with status 200 and a body whose
  only field is \<open>suggestions\<close>; the list holds one suggestion, from 0 to 3, of type
  spelling, for the original text \<open>Teh\<close>.
\<close>

theorem fallback_scenario:
  assumes "doc \<noteq> []"
  shows "status (serve \<lparr>req_method = POST, req_text = ''Teh qick brown fox.'', req_documentId = doc\<rparr>
            (RemoteNotOk code)) = 200
    \<and> response_keys (serve \<lparr>req_method = POST, req_text = ''Teh qick brown fox.'',
            req_documentId = doc\<rparr> (RemoteNotOk code)) = [''suggestions'']
    \<and> map_option (map suggestion_place) (response_suggestions
         (serve \<lparr>req_method = POST, req_text = ''Teh qick brown fox.'', req_documentId = doc\<rparr>
            (RemoteNotOk code)))
        = Some [(0, 3, spelling, ''Teh'')]"
  using assms
  by (simp add: serve_not_ok response_keys_def response_suggestions_def fox_local
      suggestion_place_def)

theorem fallback_scenario_witness:
  "''d1'' \<noteq> []
   \<and> status (serve \<lparr>req_method = POST, req_text = ''Teh qick brown fox.'', req_documentId = ''d1''\<rparr>
            (RemoteNotOk 503)) = 200
   \<and> map_option (map suggestion_place) (response_suggestions
         (serve \<lparr>req_method = POST, req_text = ''Teh qick brown fox.'', req_documentId = ''d1''\<rparr>
            (RemoteNotOk 503)))
        = Some [(0, 3, spelling, ''Teh'')]"
  using fallback_scenario [of "''d1''" 503] by simp

text \<open>
  C10 at the text \<open>Teh cat\<close>: the local source of the Edge Function suggests \<open>Teh\<close> for
  \<open>Teh\<close>, accepting the suggestion leaves the text as it was, and the next run gives
  the same suggestion again.
\<close>

theorem accept_then_rerun_regenerates:
  "map suggestion_summary (generateBasicSuggestions ''Teh cat'' ''d1'')
     = [(0, 3, spelling, ''Teh'', ''Teh'')]
   \<and> handleAcceptSuggestion ''Teh cat'' (hd (generateBasicSuggestions ''Teh cat'' ''d1''))
     = ''Teh cat''
   \<and> generateBasicSuggestions
       (handleAcceptSuggestion ''Teh cat'' (hd (generateBasicSuggestions ''Teh cat'' ''d1''))) ''d1''
     = generateBasicSuggestions ''Teh cat'' ''d1''"
proof -
  have a: "handleAcceptSuggestion ''Teh cat'' (hd (generateBasicSuggestions ''Teh cat'' ''d1''))
     = ''Teh cat''"
    by (simp add: teh_cat_local handleAcceptSuggestion_def substring_def substring_from_def)
  show ?thesis unfolding a by (simp add: teh_cat_local suggestion_summary_def)
qed

text \<open>
  The client's \<open>basicSpellCheck\<close> replaces without regard to case: there the suggestion
  is \<open>the\<close>, and nothing is suggested for the accepted text.
\<close>

lemma sibling_path_corrects:
  "map suggestion_summary (basicSpellCheck ''Teh cat'' ''d1'') = [(0, 3, spelling, ''Teh'', ''the'')]
   \<and> handleAcceptSuggestion ''Teh cat'' (hd (basicSpellCheck ''Teh cat'' ''d1'')) = ''the cat''
   \<and> basicSpellCheck ''the cat'' ''d1'' = []"
  by (simp add: basicSpellCheck_def normalizeContent_def is_word_char_def string_eval
      suggestion_summary_def handleAcceptSuggestion_def)

section \<open>Readability scores\<close>

lemma round_tenth_nonneg:
  assumes "mono fl" "fl 0 = 0" "0 \<le> y"
  shows "0 \<le> fl (Math_round (fl (y * 10)) / 10)"
proof -
  have "fl 0 \<le> fl (y * 10)" using assms(3) by (intro monoD [OF assms(1)]) simp
  then have "0 \<le> fl (y * 10)" using assms(2) by simp
  then have "0 \<le> Math_round (fl (y * 10))" by (simp add: Math_round_def)
  then have "fl 0 \<le> fl (Math_round (fl (y * 10)) / 10)" by (intro monoD [OF assms(1)]) simp
  then show ?thesis using assms(2) by simp
qed

lemma round_tenth_le_100:
  assumes "mono fl" "fl 100 = 100" "fl 1000 = 1000" "y \<le> 100"
  shows "fl (Math_round (fl (y * 10)) / 10) \<le> 100"
proof -
  have "fl (y * 10) \<le> fl 1000" using assms(4) by (intro monoD [OF assms(1)]) simp
  then have "fl (y * 10) \<le> 1000" using assms(3) by simp
  then have "\<lfloor>fl (y * 10) + 1 / 2\<rfloor> \<le> 1000" by (simp add: floor_le_iff)
  then have "Math_round (fl (y * 10)) \<le> 1000" unfolding Math_round_def by linarith
  then have "fl (Math_round (fl (y * 10)) / 10) \<le> fl 100" by (intro monoD [OF assms(1)]) simp
  then show ?thesis using assms(2) by simp
qed

lemma round_tenth_form: "\<exists>k::int. fl (Math_round z / 10) = fl (of_int k / 10)"
  unfolding Math_round_def by blast

text \<open>
  C5. Let \<open>fl\<close> be the rounding of the arithmetic: any monotone function that leaves
  0, 100 and 1000 as they are (rounding to the nearest double is one, and so is exact
  arithmetic). For every text with at least one word and one sentence,
  \<open>calculateReadabilityScores\<close> returns the three scores in the order reading ease,
  grade, automated readability; the reading ease lies between 0 and 100, the other two
  are at least 0, and each value is \<open>fl (k / 10)\<close> for an integer \<open>k\<close>, a number with
  one decimal place.
\<close>

theorem readability_score_ranges:
  assumes "mono fl" and "fl 0 = 0" and "fl 100 = 100" and "fl 1000 = 1000"
    and "0 < length (text_words text)" and "0 < length (text_sentences text)"
  shows "\<exists>e g a. calculateReadabilityScores fl text doc = Inr [e, g, a]
    \<and> score_type e = flesch_reading_ease
    \<and> 0 \<le> score_value e \<and> score_value e \<le> 100
    \<and> (\<exists>k::int. score_value e = fl (of_int k / 10))
    \<and> score_type g = flesch_kincaid_grade
    \<and> 0 \<le> score_value g
    \<and> (\<exists>k::int. score_value g = fl (of_int k / 10))
    \<and> score_type a = automated_readability
    \<and> 0 \<le> score_value a
    \<and> (\<exists>k::int. score_value a = fl (of_int k / 10))"
proof -
  note nn = round_tenth_nonneg [OF assms(1,2)]
  note le = round_tenth_le_100 [OF assms(1,3,4)]
  have c: "\<not> (length (text_sentences text) = 0 \<or> length (text_words text) = 0)"
    using assms(5,6) by simp
  have b0: "0 \<le> max 0 (z::real)" for z by simp
  have b1: "max 0 (min 100 (z::real)) \<le> 100" for z by simp
  have k: "\<exists>k::int. fl (Math_round z / 10) = fl (of_int k / 10)" for z
    by (rule round_tenth_form)
  show ?thesis
    unfolding calculateReadabilityScores_def Let_def if_not_P [OF c]
    by (rule exI, rule exI, rule exI, intro conjI, rule refl)
       (simp_all only: ReadabilityScore.simps nn [OF b0] le [OF b1] k)
qed

lemma committee_words:
  "length (text_words ''The committee will review every proposal carefully. We expect an answer soon.'') = 12"
  by (simp add: text_words_def split_ws_def split_on_def is_space_def)

lemma committee_sentences:
  "length (text_sentences ''The committee will review every proposal carefully. We expect an answer soon.'') = 2"
  by (simp add: text_sentences_def is_sentence_end_def trim_def split_on_def is_space_def)

lemma committee_syllables:
  "countSyllables ''The committee will review every proposal carefully. We expect an answer soon.'' = 23"
  by (simp add: countSyllables_def syllable_step_def is_az_def isVowel_def endsWith_def
     split_ws_def split_on_def is_space_def toLowerCase_def toLowerCaseChar_def char_of_def bit_0)

lemma committee_characters:
  "length (filter (\<lambda>c. \<not> is_space c) ''The committee will review every proposal carefully. We expect an answer soon.'') = 66"
  by (simp add: is_space_def)

lemma committee_scores:
  "score_values (calculateReadabilityScores exact
      ''The committee will review every proposal carefully. We expect an answer soon.'' ''d1'')
     = [193 / 5, 47 / 5, 15 / 2]"
  unfolding calculateReadabilityScores_def Let_def committee_words committee_sentences
    committee_syllables committee_characters exact_def
  by (simp add: Math_round_def score_values_def)

theorem readability_score_ranges_witness:
  "mono exact \<and> exact 0 = 0 \<and> exact 100 = 100 \<and> exact 1000 = 1000
   \<and> 0 < length (text_words ''The committee will review every proposal carefully. We expect an answer soon.'')
   \<and> 0 < length (text_sentences ''The committee will review every proposal carefully. We expect an answer soon.'')
   \<and> score_values (calculateReadabilityScores exact
      ''The committee will review every proposal carefully. We expect an answer soon.'' ''d1'')
     = [193 / 5, 47 / 5, 15 / 2]"
proof -
  have m: "mono exact" by (simp add: mono_def exact_def)
  have e: "exact 0 = 0" "exact 100 = 100" "exact 1000 = 1000" by (simp_all add: exact_def)
  have w: "0 < length (text_words ''The committee will review every proposal carefully. We expect an answer soon.'')"
    unfolding committee_words by simp
  have s: "0 < length (text_sentences ''The committee will review every proposal carefully. We expect an answer soon.'')"
    unfolding committee_sentences by simp
  from readability_score_ranges [OF m e w s, of "''d1''"]
  obtain x y z where xyz: "calculateReadabilityScores exact
      ''The committee will review every proposal carefully. We expect an answer soon.'' ''d1''
      = Inr [x, y, z]" "0 \<le> score_value x" "score_value x \<le> 100" by blast
  from xyz m e w s committee_scores show ?thesis by blast
qed

section \<open>The debounced analysis: what is cancelled and what is delivered\<close>

lemma run_snoc: "run (evs @ [e]) = step (run evs) e"
  by (simp add: run_def)

lemma run_append: "run (evs @ evs') = foldl step (run evs) evs'"
  by (simp add: run_def)

lemma map_fst_clearTimeout: "map fst (clearTimeout h ts) = filter (\<lambda>h'. h' \<noteq> h) (map fst ts)"
  by (induction ts) (auto simp: clearTimeout_def)

lemma set_clearTimeout: "set (clearTimeout h ts) = {p \<in> set ts. fst p \<noteq> h}"
  by (auto simp: clearTimeout_def)

lemma pending_call:
  "pending (analyzeTextDebounced r s) =
     (case debounceTimeout s of None \<Rightarrow> pending s
      | Some h \<Rightarrow> filter (\<lambda>h'. h' \<noteq> h) (pending s)) @ [nextHandle s]"
  by (simp add: analyzeTextDebounced_def pending_def Let_def map_fst_clearTimeout
      split: option.splits)

lemma call_other_fields:
  "in_flight (analyzeTextDebounced r s) = in_flight s"
  "delivered_handles (analyzeTextDebounced r s) = delivered_handles s"
  "nextHandle (analyzeTextDebounced r s) = nextHandle s + 1"
  "debounceTimeout (analyzeTextDebounced r s) = Some (nextHandle s)"
  by (simp_all add: analyzeTextDebounced_def in_flight_def delivered_handles_def Let_def)

lemma map_of_in_fst: "map_of ts h = Some r \<Longrightarrow> h \<in> set (map fst ts)"
  by (auto dest: map_of_SomeD intro: rev_image_eqI)

lemma timer_fires_fields:
  "set (pending (timer_fires h s)) \<subseteq> set (pending s)"
  "map_of (timers s) h = None \<Longrightarrow> timer_fires h s = s"
  "map_of (timers s) h = Some r \<Longrightarrow> h \<notin> set (pending (timer_fires h s))"
  "set (in_flight (timer_fires h s)) \<union> set (delivered_handles (timer_fires h s))
     \<subseteq> set (in_flight s) \<union> set (delivered_handles s)
        \<union> (if h \<in> set (pending s) then {h} else {})"
  "nextHandle (timer_fires h s) = nextHandle s"
  "debounceTimeout (timer_fires h s) = debounceTimeout s"
  by (auto simp: timer_fires_def pending_def in_flight_def delivered_handles_def
      set_clearTimeout dest: map_of_in_fst split: option.splits)

lemma invoke_returns_fields:
  "pending (invoke_returns h res s) = pending s"
  "set (in_flight (invoke_returns h res s)) \<union> set (delivered_handles (invoke_returns h res s))
     \<subseteq> set (in_flight s) \<union> set (delivered_handles s)"
  "nextHandle (invoke_returns h res s) = nextHandle s"
  "debounceTimeout (invoke_returns h res s) = debounceTimeout s"
  by (auto simp: invoke_returns_def pending_def in_flight_def delivered_handles_def Let_def
      set_clearTimeout dest: map_of_in_fst split: option.splits)

lemma engine_inv_initial: "engine_inv initial_state"
  by (simp add: engine_inv_def initial_state_def pending_def in_flight_def delivered_handles_def)

lemma engine_inv_call:
  assumes "engine_inv s"
  shows "pending (analyzeTextDebounced r s) = [nextHandle s]"
    and "engine_inv (analyzeTextDebounced r s)"
proof -
  from assms have i1: "\<forall>h\<in>set (pending s). debounceTimeout s = Some h"
    and i2: "\<forall>h\<in>set (pending s) \<union> set (in_flight s) \<union> set (delivered_handles s).
               h < nextHandle s"
    by (simp_all add: engine_inv_def)
  show p: "pending (analyzeTextDebounced r s) = [nextHandle s]"
  proof (cases "debounceTimeout s")
    case None
    with i1 have "pending s = []" by (cases "pending s") auto
    with None show ?thesis by (simp add: pending_call)
  next
    case (Some h)
    with i1 have "filter (\<lambda>h'. h' \<noteq> h) (pending s) = []"
      by (auto simp: filter_empty_conv)
    with Some show ?thesis by (simp add: pending_call)
  qed
  have "\<forall>h\<in>set (in_flight s) \<union> set (delivered_handles s). h < nextHandle s"
    using i2 by blast
  then show "engine_inv (analyzeTextDebounced r s)"
    unfolding engine_inv_def p call_other_fields by (auto simp: less_Suc_eq)
qed

lemma engine_inv_timer:
  assumes "engine_inv s"
  shows "engine_inv (timer_fires h s)"
proof (cases "map_of (timers s) h")
  case None
  with assms show ?thesis by (simp add: timer_fires_fields(2))
next
  case (Some r)
  from assms have i1: "\<forall>h\<in>set (pending s). debounceTimeout s = Some h"
    and i2: "\<forall>h\<in>set (pending s) \<union> set (in_flight s) \<union> set (delivered_handles s).
               h < nextHandle s"
    and i3: "set (pending s) \<inter> (set (in_flight s) \<union> set (delivered_handles s)) = {}"
    by (simp_all add: engine_inv_def)
  let ?s = "timer_fires h s"
  have sub: "set (pending ?s) \<subseteq> set (pending s)" by (rule timer_fires_fields(1))
  have notin: "h \<notin> set (pending ?s)" using Some by (rule timer_fires_fields(3))
  have hp: "h \<in> set (pending s)" using Some by (auto simp: pending_def dest: map_of_in_fst)
  have out: "set (in_flight ?s) \<union> set (delivered_handles ?s)
      \<subseteq> set (in_flight s) \<union> set (delivered_handles s) \<union> {h}"
    using timer_fires_fields(4) [of h s] hp by simp
  have a: "\<forall>h'\<in>set (pending ?s). debounceTimeout ?s = Some h'"
    using i1 sub by (auto simp: timer_fires_fields(6))
  have b: "\<forall>h'\<in>set (pending ?s) \<union> set (in_flight ?s) \<union> set (delivered_handles ?s).
      h' < nextHandle ?s"
    unfolding timer_fires_fields(5) using i2 sub out hp by blast
  have c: "set (pending ?s) \<inter> (set (in_flight ?s) \<union> set (delivered_handles ?s)) = {}"
    using i3 sub out notin by blast
  from a b c show ?thesis by (simp add: engine_inv_def)
qed

lemma engine_inv_invoke:
  assumes "engine_inv s"
  shows "engine_inv (invoke_returns h res s)"
proof -
  from assms have i1: "\<forall>h\<in>set (pending s). debounceTimeout s = Some h"
    and i2: "\<forall>h\<in>set (pending s) \<union> set (in_flight s) \<union> set (delivered_handles s).
               h < nextHandle s"
    and i3: "set (pending s) \<inter> (set (in_flight s) \<union> set (delivered_handles s)) = {}"
    by (simp_all add: engine_inv_def)
  let ?s = "invoke_returns h res s"
  note f = invoke_returns_fields [of h res s]
  have a: "\<forall>h'\<in>set (pending ?s). debounceTimeout ?s = Some h'"
    using i1 by (simp add: f(1,4))
  have b: "\<forall>h'\<in>set (pending ?s) \<union> set (in_flight ?s) \<union> set (delivered_handles ?s).
      h' < nextHandle ?s"
    unfolding f(1,3) using i2 f(2) by blast
  have c: "set (pending ?s) \<inter> (set (in_flight ?s) \<union> set (delivered_handles ?s)) = {}"
    unfolding f(1) using i3 f(2) by blast
  from a b c show ?thesis by (simp add: engine_inv_def)
qed

lemma engine_inv_step: "engine_inv s \<Longrightarrow> engine_inv (step s e)"
  by (cases e) (simp_all add: engine_inv_call(2) engine_inv_timer engine_inv_invoke)

lemma engine_inv_run: "engine_inv (run evs)"
proof (induction evs rule: rev_induct)
  case Nil
  then show ?case by (simp add: run_def engine_inv_initial)
next
  case (snoc e evs)
  then show ?case by (simp add: run_snoc engine_inv_step)
qed

lemma cancelled_step: "cancelled s h \<Longrightarrow> cancelled (step s e) h"
proof (cases e)
  case (CallAnalyzeTextDebounced r)
  assume c: "cancelled s h"
  then have "h \<notin> set (pending (analyzeTextDebounced r s))"
    by (cases "debounceTimeout s") (auto simp: pending_call cancelled_def)
  with c show ?thesis
    unfolding CallAnalyzeTextDebounced step.simps cancelled_def call_other_fields by simp
next
  case (TimerFires h')
  assume c: "cancelled s h"
  note f = timer_fires_fields(1,4,5) [of h' s]
  have "h \<notin> set (pending (timer_fires h' s))" using c f(1) by (auto simp: cancelled_def)
  moreover have "h \<notin> set (in_flight (timer_fires h' s)) \<union> set (delivered_handles (timer_fires h' s))"
  proof
    assume "h \<in> set (in_flight (timer_fires h' s)) \<union> set (delivered_handles (timer_fires h' s))"
    with f(2) have "h \<in> set (in_flight s) \<union> set (delivered_handles s)
        \<union> (if h' \<in> set (pending s) then {h'} else {})" by blast
    with c show False by (auto simp: cancelled_def split: if_splits)
  qed
  ultimately show ?thesis
    using c unfolding TimerFires step.simps cancelled_def f(3) by simp
next
  case (InvokeReturns h' res)
  assume c: "cancelled s h"
  note f = invoke_returns_fields(1,2,3) [of h' res s]
  have "h \<notin> set (in_flight (invoke_returns h' res s)) \<union> set (delivered_handles (invoke_returns h' res s))"
    using c f(2) by (auto simp: cancelled_def)
  then show ?thesis
    using c unfolding InvokeReturns step.simps cancelled_def f(1,3) by simp
qed

lemma cancelled_foldl: "cancelled s h \<Longrightarrow> cancelled (foldl step s evs) h"
  by (induction evs arbitrary: s) (simp_all add: cancelled_step)

lemma invoke_returns_delivers:
  "map_of (running s) h = Some rq \<Longrightarrow>
     \<exists>suggestions. delivered (invoke_returns h res s) = delivered s @ [(h, rq, suggestions)]"
  by (simp add: invoke_returns_def Let_def)

text \<open>
  C1, amended. The handle of its timer identifies a request, and a later call has a
  larger handle. A request whose debounce timer is still armed when
  \<open>analyzeTextDebounced\<close> is called again is never delivered, whatever happens
  afterwards. A request whose timer has fired is in flight, and when its Edge Function
  call returns its callback is called: nothing compares the request with the latest
  one.
\<close>

theorem cancelled_only_before_dispatch:
  "(h \<in> set (pending (run evs)) \<longrightarrow>
      h \<notin> set (delivered_handles (run (evs @ CallAnalyzeTextDebounced r # evs'))))
   \<and> (map_of (running (run evs)) h = Some rq \<longrightarrow>
      (\<exists>suggestions. delivered (run (evs @ [InvokeReturns h res]))
         = delivered (run evs) @ [(h, rq, suggestions)]))"
proof (intro conjI impI)
  assume hp: "h \<in> set (pending (run evs))"
  have inv: "engine_inv (run evs)" by (rule engine_inv_run)
  from inv hp have lt: "h < nextHandle (run evs)"
    and nin: "h \<notin> set (in_flight (run evs))" "h \<notin> set (delivered_handles (run evs))"
    by (auto simp: engine_inv_def)
  have "cancelled (analyzeTextDebounced r (run evs)) h"
    unfolding cancelled_def engine_inv_call(1) [OF inv] call_other_fields
    using lt nin by simp
  then have "cancelled (foldl step (analyzeTextDebounced r (run evs)) evs') h"
    by (rule cancelled_foldl)
  moreover have "run (evs @ CallAnalyzeTextDebounced r # evs')
      = foldl step (analyzeTextDebounced r (run evs)) evs'"
    by (simp add: run_def)
  ultimately show "h \<notin> set (delivered_handles (run (evs @ CallAnalyzeTextDebounced r # evs')))"
    by (simp add: cancelled_def)
next
  assume "map_of (running (run evs)) h = Some rq"
  then show "\<exists>suggestions. delivered (run (evs @ [InvokeReturns h res]))
         = delivered (run evs) @ [(h, rq, suggestions)]"
    unfolding run_snoc step.simps by (rule invoke_returns_delivers)
qed

text \<open>
  C9, amended. The class has one timer slot for all documents. After any sequence of
  events, a call of \<open>analyzeTextDebounced\<close> for any document leaves exactly one armed
  timer, its own: every request that was pending before, whatever its document, is
  cancelled. At any time an armed timer is the one held in \<open>debounceTimeout\<close>.
\<close>

theorem one_debounce_slot:
  "pending (run (evs @ [CallAnalyzeTextDebounced r])) = [nextHandle (run evs)]
   \<and> (\<forall>h\<in>set (pending (run evs)).
        debounceTimeout (run evs) = Some h
        \<and> h \<notin> set (pending (run (evs @ [CallAnalyzeTextDebounced r]))))"
proof -
  have inv: "engine_inv (run evs)" by (rule engine_inv_run)
  have p: "pending (run (evs @ [CallAnalyzeTextDebounced r])) = [nextHandle (run evs)]"
    unfolding run_snoc step.simps by (rule engine_inv_call(1) [OF inv])
  from inv show ?thesis unfolding p by (auto simp: engine_inv_def)
qed

lemmas engine_eval =
  run_def initial_state_def analyzeTextDebounced_def timer_fires_def invoke_returns_def
  clearTimeout_def returns_at_once_def trim_def is_space_def pending_def in_flight_def
  delivered_handles_def Let_def

text \<open>
  C1 as stated fails: request 1 is dispatched, a later call makes request 2 the current
  one, and the result of request 1 is delivered all the same.
\<close>

theorem stale_result_is_delivered:
  "debounceTimeout (run
      [CallAnalyzeTextDebounced \<lparr>rq_content = ''Teh cat sat'', rq_documentId = ''d1'', rq_callback = 0\<rparr>,
       TimerFires 1,
       CallAnalyzeTextDebounced \<lparr>rq_content = ''The cat sat'', rq_documentId = ''d1'', rq_callback = 0\<rparr>])
     = Some 2
   \<and> in_flight (run
      [CallAnalyzeTextDebounced \<lparr>rq_content = ''Teh cat sat'', rq_documentId = ''d1'', rq_callback = 0\<rparr>,
       TimerFires 1,
       CallAnalyzeTextDebounced \<lparr>rq_content = ''The cat sat'', rq_documentId = ''d1'', rq_callback = 0\<rparr>])
     = [1]
   \<and> delivered_handles (run
      [CallAnalyzeTextDebounced \<lparr>rq_content = ''Teh cat sat'', rq_documentId = ''d1'', rq_callback = 0\<rparr>,
       TimerFires 1,
       CallAnalyzeTextDebounced \<lparr>rq_content = ''The cat sat'', rq_documentId = ''d1'', rq_callback = 0\<rparr>,
       InvokeReturns 1 (InvokeData (Some []))])
     = [1]"
  by (simp add: engine_eval)

text \<open>
  C9 as stated fails: the analysis of document A is pending, a call for document B
  cancels it, and only the request of B is ever delivered.
\<close>

theorem other_document_cancels_pending:
  "pending (run
      [CallAnalyzeTextDebounced \<lparr>rq_content = ''Teh cat sat'', rq_documentId = ''A'', rq_callback = 0\<rparr>])
     = [1]
   \<and> pending (run
      [CallAnalyzeTextDebounced \<lparr>rq_content = ''Teh cat sat'', rq_documentId = ''A'', rq_callback = 0\<rparr>,
       CallAnalyzeTextDebounced \<lparr>rq_content = ''Another text'', rq_documentId = ''B'', rq_callback = 1\<rparr>])
     = [2]
   \<and> delivered_handles (run
      [CallAnalyzeTextDebounced \<lparr>rq_content = ''Teh cat sat'', rq_documentId = ''A'', rq_callback = 0\<rparr>,
       CallAnalyzeTextDebounced \<lparr>rq_content = ''Another text'', rq_documentId = ''B'', rq_callback = 1\<rparr>,
       TimerFires 1, TimerFires 2, InvokeReturns 2 (InvokeData (Some []))])
     = [2]"
  by (simp add: engine_eval)

theorem cancelled_only_before_dispatch_witness:
  "1 \<in> set (pending (run
      [CallAnalyzeTextDebounced \<lparr>rq_content = ''Teh cat sat'', rq_documentId = ''d1'', rq_callback = 0\<rparr>]))
   \<and> 1 \<notin> set (delivered_handles (run
      [CallAnalyzeTextDebounced \<lparr>rq_content = ''Teh cat sat'', rq_documentId = ''d1'', rq_callback = 0\<rparr>,
       CallAnalyzeTextDebounced \<lparr>rq_content = ''The cat sat'', rq_documentId = ''d1'', rq_callback = 0\<rparr>,
       TimerFires 1, TimerFires 2, InvokeReturns 2 (InvokeData (Some []))]))
   \<and> map_of (running (run
      [CallAnalyzeTextDebounced \<lparr>rq_content = ''Teh cat sat'', rq_documentId = ''d1'', rq_callback = 0\<rparr>,
       TimerFires 1])) 1
     = Some \<lparr>rq_content = ''Teh cat sat'', rq_documentId = ''d1'', rq_callback = 0\<rparr>
   \<and> delivered_handles (run
      [CallAnalyzeTextDebounced \<lparr>rq_content = ''Teh cat sat'', rq_documentId = ''d1'', rq_callback = 0\<rparr>,
       TimerFires 1, InvokeReturns 1 InvokeError])
     = [1]"
proof -
  let ?r1 = "\<lparr>rq_content = ''Teh cat sat'', rq_documentId = ''d1'', rq_callback = 0\<rparr>"
  let ?r2 = "\<lparr>rq_content = ''The cat sat'', rq_documentId = ''d1'', rq_callback = 0\<rparr>"
  have a: "1 \<in> set (pending (run [CallAnalyzeTextDebounced ?r1]))"
    by (simp add: engine_eval)
  have b: "map_of (running (run [CallAnalyzeTextDebounced ?r1, TimerFires 1])) 1 = Some ?r1"
    by (simp add: engine_eval)
  note T = cancelled_only_before_dispatch
    [of 1 "[CallAnalyzeTextDebounced ?r1]" ?r2
        "[TimerFires 1, TimerFires 2, InvokeReturns 2 (InvokeData (Some []))]"
        ?r1 InvokeError]
  from T a have c: "1 \<notin> set (delivered_handles (run
      ([CallAnalyzeTextDebounced ?r1] @ CallAnalyzeTextDebounced ?r2 #
       [TimerFires 1, TimerFires 2, InvokeReturns 2 (InvokeData (Some []))])))"
    by blast
  have d: "delivered_handles (run [CallAnalyzeTextDebounced ?r1, TimerFires 1, InvokeReturns 1 InvokeError]) = [1]"
    by (simp add: engine_eval)
  from a b c d show ?thesis by simp
qed

theorem one_debounce_slot_witness:
  "pending (run
      [CallAnalyzeTextDebounced \<lparr>rq_content = ''Teh cat sat'', rq_documentId = ''A'', rq_callback = 0\<rparr>])
     = [1]
   \<and> pending (run
      ([CallAnalyzeTextDebounced \<lparr>rq_content = ''Teh cat sat'', rq_documentId = ''A'', rq_callback = 0\<rparr>]
       @ [CallAnalyzeTextDebounced \<lparr>rq_content = ''Another text'', rq_documentId = ''B'', rq_callback = 1\<rparr>]))
     = [2]"
proof -
  let ?rA = "\<lparr>rq_content = ''Teh cat sat'', rq_documentId = ''A'', rq_callback = 0\<rparr>"
  let ?rB = "\<lparr>rq_content = ''Another text'', rq_documentId = ''B'', rq_callback = 1\<rparr>"
  have a: "pending (run [CallAnalyzeTextDebounced ?rA]) = [1]"
    by (simp add: engine_eval)
  have n: "nextHandle (run [CallAnalyzeTextDebounced ?rA]) = 2"
    by (simp add: engine_eval)
  from one_debounce_slot [of "[CallAnalyzeTextDebounced ?rA]" ?rB]
  have "pending (run ([CallAnalyzeTextDebounced ?rA] @ [CallAnalyzeTextDebounced ?rB]))
      = [nextHandle (run [CallAnalyzeTextDebounced ?rA])]" by (rule conjunct1)
  with a n show ?thesis by simp
qed

end
